theory Spec2Isabelle
  imports Complex_Main "HOL-Library.Word"
begin

section \<open>Python floats\<close>

text \<open>
  \<^verbatim>\<open>calculate_bleed_pixels\<close> computes \<^verbatim>\<open>int((width * 4.84) / 100)\<close>: the product and the
  quotient are CPython floats, that is IEEE 754 binary64 numbers, each operation rounding the
  exact result to the nearest double, ties to even. A finite double is modelled by the
  rational number it denotes.
\<close>

datatype exn = OverflowError | ValueError | IndexError | UnidentifiedImageError | OSError
  | UnicodeEncodeError | KeyboardInterrupt

text \<open>Python's \<^verbatim>\<open>int.bit_length\<close> on a natural number.\<close>

fun bit_length :: "nat \<Rightarrow> nat" where
  "bit_length n = (if n = 0 then 0 else Suc (bit_length (n div 2)))"

declare bit_length.simps [simp del]

text \<open>Rounding to the nearest integer, ties to the even one.\<close>

definition rne :: "rat \<Rightarrow> int" where
  "rne x = (let f = \<lfloor>x\<rfloor>; r = x - of_int f in
     if r < 1 / 2 then f else if 1 / 2 < r then f + 1 else if even f then f else f + 1)"

definition pow2 :: "int \<Rightarrow> rat" where
  "pow2 e = (if 0 \<le> e then 2 ^ nat e else 1 / 2 ^ nat (- e))"

text \<open>The binary exponent of a positive rational: \<open>pow2 (ilog2 x) \<le> x < pow2 (ilog2 x + 1)\<close>.\<close>

definition ilog2 :: "rat \<Rightarrow> int" where
  "ilog2 x = (if 1 \<le> x then int (bit_length (nat \<lfloor>x\<rfloor>)) - 1
              else - int (bit_length (nat (\<lceil>1 / x\<rceil> - 1))))"

text \<open>
  The double nearest to \<open>x\<close>, with the exponent unbounded above: 53 significant bits, the
  last one worth \<open>pow2 e\<close>, where \<open>e\<close> never falls below the subnormal spacing \<open>pow2 (- 1074)\<close>.
\<close>

definition round_double :: "rat \<Rightarrow> rat" where
  "round_double x = (if x = 0 then 0 else
     let e = max (ilog2 \<bar>x\<bar>) (- 1022) - 52
     in of_int (rne (x / pow2 e)) * pow2 e)"

datatype pyfloat = Finite rat | PosInf | NegInf

text \<open>A rounded result at or beyond \<open>2 ^ 1024\<close> in magnitude overflows to an infinity.\<close>

definition overflow :: "rat \<Rightarrow> pyfloat" where
  "overflow r = (if 2 ^ 1024 \<le> r then PosInf else if r \<le> - (2 ^ 1024) then NegInf else Finite r)"

text \<open>
  The conversion of an \<^verbatim>\<open>int\<close> operand of a float operation: correctly rounded, and
  \<^verbatim>\<open>OverflowError: int too large to convert to float\<close> where the result is not finite.
\<close>

definition float_of_int :: "int \<Rightarrow> exn + pyfloat" where
  "float_of_int n = (case overflow (round_double (of_int n)) of
     Finite r \<Rightarrow> Inr (Finite r) | PosInf \<Rightarrow> Inl OverflowError | NegInf \<Rightarrow> Inl OverflowError)"

text \<open>
  \<^verbatim>\<open>x * c\<close> and \<^verbatim>\<open>x / c\<close> for a finite double \<open>c > 0\<close> (the only operands the program has):
  neither raises, an overflow gives an infinity, an infinity stays one.
\<close>

fun float_mul :: "pyfloat \<Rightarrow> rat \<Rightarrow> pyfloat" where
  "float_mul (Finite a) c = overflow (round_double (a * c))"
| "float_mul PosInf c = PosInf"
| "float_mul NegInf c = NegInf"

fun float_div :: "pyfloat \<Rightarrow> rat \<Rightarrow> pyfloat" where
  "float_div (Finite a) c = overflow (round_double (a / c))"
| "float_div PosInf c = PosInf"
| "float_div NegInf c = NegInf"

text \<open>
  \<^verbatim>\<open>int(x)\<close>: truncation toward zero, and
  \<^verbatim>\<open>OverflowError: cannot convert float infinity to integer\<close>.
\<close>

fun int_of_float :: "pyfloat \<Rightarrow> exn + int" where
  "int_of_float (Finite r) = Inr (if 0 \<le> r then \<lfloor>r\<rfloor> else \<lceil>r\<rceil>)"
| "int_of_float PosInf = Inl OverflowError"
| "int_of_float NegInf = Inl OverflowError"

section \<open>The bleed geometry: \<^verbatim>\<open>calculate_bleed_pixels\<close>\<close>

text \<open>The float literals \<^verbatim>\<open>4.84\<close> and \<^verbatim>\<open>3.47\<close> denote the doubles nearest to them.\<close>

definition WIDTH_BLEED_PERCENT :: rat where
  "WIDTH_BLEED_PERCENT = round_double (484 / 100)"

definition HEIGHT_BLEED_PERCENT :: rat where
  "HEIGHT_BLEED_PERCENT = round_double (347 / 100)"

text \<open>
  The expression \<^verbatim>\<open>int((n * percent) / 100)\<close> of lines 138 and 139; the \<^verbatim>\<open>int\<close> 100
  converts to the double 100 exactly.
\<close>

definition bleed_per_side :: "int \<Rightarrow> rat \<Rightarrow> exn + int" where
  "bleed_per_side n percent = (case float_of_int n of
     Inl e \<Rightarrow> Inl e
   | Inr x \<Rightarrow> int_of_float (float_div (float_mul x percent) 100))"

definition calculate_bleed_pixels :: "int \<Rightarrow> int \<Rightarrow> exn + (int \<times> int \<times> int \<times> int)" where
  "calculate_bleed_pixels width height =
     (case bleed_per_side width WIDTH_BLEED_PERCENT of
        Inl e \<Rightarrow> Inl e
      | Inr horizontal_bleed_per_side \<Rightarrow>
          (case bleed_per_side height HEIGHT_BLEED_PERCENT of
             Inl e \<Rightarrow> Inl e
           | Inr vertical_bleed_per_side \<Rightarrow>
               Inr (vertical_bleed_per_side, vertical_bleed_per_side,
                    horizontal_bleed_per_side, horizontal_bleed_per_side)))"

section \<open>Images: the operations of the imaging library that the program calls\<close>

text \<open>
  An image in mode \<^verbatim>\<open>RGB\<close>: its size and its rows of pixels, top to bottom, each pixel
  three bytes. \<open>sized\<close> is the buffer invariant (every row has the image's width);
  a decoded image has positive dimensions as well.
\<close>

type_synonym pixel = "8 word \<times> 8 word \<times> 8 word"

record image =
  xsize :: nat
  ysize :: nat
  rows :: "pixel list list"

definition sized :: "image \<Rightarrow> bool" where
  "sized im \<longleftrightarrow> length (rows im) = ysize im \<and> (\<forall>r \<in> set (rows im). length r = xsize im)"

definition decoded :: "image \<Rightarrow> bool" where
  "decoded im \<longleftrightarrow> 0 < xsize im \<and> 0 < ysize im \<and> sized im"

text \<open>\<^verbatim>\<open>im.getpixel((x, y))\<close>; outside the image it raises \<^verbatim>\<open>IndexError\<close>.\<close>

definition getpixel :: "image \<Rightarrow> nat \<times> nat \<Rightarrow> exn + pixel" where
  "getpixel im xy = (case xy of (x, y) \<Rightarrow>
     if x < xsize im \<and> y < ysize im then Inr (rows im ! y ! x) else Inl IndexError)"

definition black :: pixel where
  "black = (0, 0, 0)"

text \<open>\<^verbatim>\<open>Image.new('RGB', size, color)\<close>; the colour defaults to 0, which is black.\<close>

definition Image_new :: "nat \<times> nat \<Rightarrow> pixel \<Rightarrow> image" where
  "Image_new sz color = (case sz of (w, h) \<Rightarrow>
     \<lparr>xsize = w, ysize = h, rows = replicate h (replicate w color)\<rparr>)"

text \<open>
  \<^verbatim>\<open>im.crop((left, upper, right, lower))\<close>: a copy of that rectangle, a new image of
  size \<open>(right - left, lower - upper)\<close>; what lies outside \<open>im\<close> is black.
\<close>

definition crop :: "image \<Rightarrow> nat \<times> nat \<times> nat \<times> nat \<Rightarrow> image" where
  "crop im box = (case box of (l, u, r, b) \<Rightarrow>
     \<lparr>xsize = r - l, ysize = b - u,
      rows = map (\<lambda>y. map (\<lambda>x. if l + x < xsize im \<and> u + y < ysize im
                                then rows im ! (u + y) ! (l + x) else black) [0..<r - l])
                 [0..<b - u]\<rparr>)"

text \<open>
  \<^verbatim>\<open>dst.paste(src, (x0, y0))\<close>: \<open>src\<close> overwrites the rectangle of its own size whose upper
  left corner is \<open>(x0, y0)\<close>, clipped to \<open>dst\<close>; every other pixel of \<open>dst\<close> stays.
\<close>

definition paste :: "image \<Rightarrow> image \<Rightarrow> nat \<times> nat \<Rightarrow> image" where
  "paste dst src pos = (case pos of (x0, y0) \<Rightarrow>
     dst\<lparr>rows := map (\<lambda>y. map (\<lambda>x. if x0 \<le> x \<and> x < x0 + xsize src \<and> y0 \<le> y \<and> y < y0 + ysize src
                                     then rows src ! (y - y0) ! (x - x0) else rows dst ! y ! x)
                                [0..<xsize dst])
                      [0..<ysize dst]\<rparr>)"

section \<open>The edge extension: \<^verbatim>\<open>add_bleed_border\<close>\<close>

text \<open>Lines 172 to 175: the top edge.\<close>

definition fill_top :: "image \<Rightarrow> nat \<Rightarrow> nat \<Rightarrow> image \<Rightarrow> image" where
  "fill_top img top' left extended_img =
     (if 0 < top' then
        let top_edge = crop img (0, 0, xsize img, 1)
        in fold (\<lambda>y canvas. paste canvas top_edge (left, y)) [0..<top'] extended_img
      else extended_img)"

text \<open>Lines 178 to 181: the bottom edge.\<close>

definition fill_bottom :: "image \<Rightarrow> nat \<Rightarrow> nat \<Rightarrow> nat \<Rightarrow> nat \<Rightarrow> image \<Rightarrow> image" where
  "fill_bottom img top' bottom left new_height extended_img =
     (if 0 < bottom then
        let bottom_edge = crop img (0, ysize img - 1, xsize img, ysize img)
        in fold (\<lambda>y canvas. paste canvas bottom_edge (left, y))
             [top' + ysize img..<new_height] extended_img
      else extended_img)"

text \<open>Lines 184 to 187: the left edge, read from the canvas, corners included.\<close>

definition fill_left :: "nat \<Rightarrow> nat \<Rightarrow> image \<Rightarrow> image" where
  "fill_left left new_height extended_img =
     (if 0 < left then
        let left_edge = crop extended_img (left, 0, left + 1, new_height)
        in fold (\<lambda>x canvas. paste canvas left_edge (x, 0)) [0..<left] extended_img
      else extended_img)"

text \<open>Lines 190 to 193: the right edge, read from the canvas, corners included.\<close>

definition fill_right :: "image \<Rightarrow> nat \<Rightarrow> nat \<Rightarrow> nat \<Rightarrow> nat \<Rightarrow> image \<Rightarrow> image" where
  "fill_right img left right new_width new_height extended_img =
     (if 0 < right then
        let right_edge = crop extended_img
              (left + xsize img - 1, 0, left + xsize img, new_height)
        in fold (\<lambda>x canvas. paste canvas right_edge (x, 0))
             [left + xsize img..<new_width] extended_img
      else extended_img)"

text \<open>
  Lines 157 to 193 on the RGB image \<open>img\<close>, with the colour of the fresh canvas as a
  parameter. \<^verbatim>\<open>Image.new\<close> raises \<^verbatim>\<open>ValueError\<close> on a negative size.
\<close>

definition bleed_canvas :: "pixel \<Rightarrow> image \<Rightarrow> exn + image" where
  "bleed_canvas color img =
     (let width = xsize img; height = ysize img in
      case calculate_bleed_pixels (int width) (int height) of
        Inl e \<Rightarrow> Inl e
      | Inr (top', bottom, left, right) \<Rightarrow>
          if int width + left + right < 0 \<or> int height + top' + bottom < 0 then Inl ValueError
          else
            let new_width = nat (int width + left + right);
                new_height = nat (int height + top' + bottom);
                extended_img = Image_new (new_width, new_height) color;
                extended_img = paste extended_img img (nat left, nat top');
                extended_img = fill_top img (nat top') (nat left) extended_img;
                extended_img = fill_bottom img (nat top') (nat bottom) (nat left) new_height
                                 extended_img;
                extended_img = fill_left (nat left) new_height extended_img;
                extended_img = fill_right img (nat left) (nat right) new_width new_height
                                 extended_img
            in Inr extended_img)"

text \<open>The program allocates the canvas with the default colour.\<close>

definition extend_image :: "image \<Rightarrow> exn + image" where
  "extend_image img = bleed_canvas black img"

section \<open>Effects: the file system and the console\<close>

text \<open>
  An action runs in a state \<open>'w\<close> of the world (the file system and the console): it
  returns a value or raises an exception, and leaves a new state.
\<close>

type_synonym ('a, 'w) io = "'w \<Rightarrow> (exn + 'a) \<times> 'w"

definition io_return :: "'a \<Rightarrow> ('a, 'w) io" where
  "io_return v w = (Inr v, w)"

definition io_raise :: "exn \<Rightarrow> ('a, 'w) io" where
  "io_raise e w = (Inl e, w)"

definition io_bind :: "('a, 'w) io \<Rightarrow> ('a \<Rightarrow> ('b, 'w) io) \<Rightarrow> ('b, 'w) io" where
  "io_bind m f w = (case m w of (Inl e, w') \<Rightarrow> (Inl e, w') | (Inr v, w') \<Rightarrow> f v w')"

text \<open>
  \<^verbatim>\<open>try: ... except Exception as e: ...\<close> catches the exceptions of class
  \<^verbatim>\<open>Exception\<close>; \<^verbatim>\<open>KeyboardInterrupt\<close> is not one of them and passes through. What the
  handler raises is not caught.
\<close>

definition is_Exception :: "exn \<Rightarrow> bool" where
  "is_Exception e \<longleftrightarrow> e \<noteq> KeyboardInterrupt"

definition try_except :: "('a, 'w) io \<Rightarrow> (exn \<Rightarrow> ('a, 'w) io) \<Rightarrow> ('a, 'w) io" where
  "try_except body handler w =
     (case body w of
        (Inr v, w') \<Rightarrow> (Inr v, w')
      | (Inl e, w') \<Rightarrow> if is_Exception e then handler e w' else (Inl e, w'))"

text \<open>
  The texts that \<^verbatim>\<open>add_bleed_border\<close> and \<^verbatim>\<open>process_images\<close> print, each named by the
  line that prints it and carrying the values it is formatted from: line 213 (the number
  of files), line 222 (the index, the number of files, the first 30 characters of the file
  name; this text holds the progress bar), line 204 (the file name and the exception),
  lines 231, 233, 234 and 237 (the two counters).
\<close>

datatype message =
    Processing_header nat
  | Progress nat nat string
  | Error_processing string exn
  | Clear_line
  | Processing_complete
  | Successfully_processed nat
  | Failed_to_process nat

text \<open>
  The environment of the program: \<open>image_open\<close> stands for \<^verbatim>\<open>Image.open\<close> followed by
  the conversion to RGB, \<open>save\<close> for \<^verbatim>\<open>Image.save\<close>, \<open>print\<close> for the built-in
  \<^verbatim>\<open>print\<close>. Each of them may raise, \<open>print\<close> for instance
  \<^verbatim>\<open>UnicodeEncodeError\<close> on a console that cannot encode the text.
\<close>

type_synonym path = "string list"

record 'w env =
  image_open :: "path \<Rightarrow> (image, 'w) io"
  save :: "image \<Rightarrow> path \<Rightarrow> (unit, 'w) io"
  print :: "message \<Rightarrow> (unit, 'w) io"

definition name :: "path \<Rightarrow> string" where
  "name p = (if p = [] then [] else last p)"

section \<open>The file and the batch: \<^verbatim>\<open>add_bleed_border\<close> and \<^verbatim>\<open>process_images\<close>\<close>

text \<open>
  \<^verbatim>\<open>add_bleed_border(image_path, output_folder)\<close>, lines 150 to 205: the body of the
  \<^verbatim>\<open>try\<close> returns \<open>True\<close>; the handler prints the error and returns \<open>False\<close>.
\<close>

definition add_bleed_border :: "'w env \<Rightarrow> path \<Rightarrow> path \<Rightarrow> (bool, 'w) io" where
  "add_bleed_border env image_path output_folder =
     try_except
       (io_bind (image_open env image_path) (\<lambda>img.
          case extend_image img of
            Inl e \<Rightarrow> io_raise e
          | Inr extended_img \<Rightarrow>
              let output_path = output_folder @ [name image_path]
              in io_bind (save env extended_img output_path) (\<lambda>_. io_return True)))
       (\<lambda>e. io_bind (print env (Error_processing (name image_path) e)) (\<lambda>_. io_return False))"





section \<open>Notions used in the statements and proofs\<close>

text \<open>The pixel at column \<open>x\<close> of row \<open>y\<close>, read without the range check of \<open>getpixel\<close>.\<close>

definition px :: "image \<Rightarrow> nat \<Rightarrow> nat \<Rightarrow> pixel" where
  "px im x y = rows im ! y ! x"

text \<open>The exponent of the last place that \<open>round_double\<close> chooses.\<close>

definition expo :: "rat \<Rightarrow> int" where
  "expo x = max (ilog2 \<bar>x\<bar>) (- 1022) - 52"

text \<open>The canvas of \<open>bleed_canvas\<close> after all fills, for margins that are natural numbers.\<close>

definition filled :: "pixel \<Rightarrow> image \<Rightarrow> nat \<Rightarrow> nat \<Rightarrow> nat \<Rightarrow> nat \<Rightarrow> image" where
  "filled color img t b l r =
     (let nw = xsize img + l + r; nh = ysize img + t + b in
      fill_right img l r nw nh (fill_left l nh (fill_bottom img t b l nh (fill_top img t l
        (paste (Image_new (nw, nh) color) img (l, t))))))"

text \<open>Two positions, each inside its image, hold the same pixel.\<close>

definition same_pixel :: "image \<Rightarrow> nat \<times> nat \<Rightarrow> image \<Rightarrow> nat \<times> nat \<Rightarrow> bool" where
  "same_pixel a p b q =
     (case (getpixel a p, getpixel b q) of (Inr c, Inr d) \<Rightarrow> c = d | _ \<Rightarrow> False)"


section \<open>Concrete inputs\<close>

text \<open>
  A 21 by 29 image whose pixels all differ (its margins are 1 on every side), a 2 by 2
  image (its margins are 0), an image record too wide for a float, and a file system that
  records the paths written, in which one file cannot be decoded, one yields the wide
  image and one output cannot be written.
\<close>

definition example_img :: image where
  "example_img = \<lparr>xsize = 21, ysize = 29,
     rows = map (\<lambda>y. map (\<lambda>x. (of_nat x, of_nat y, 7)) [0..<21]) [0..<29]\<rparr>"

definition tiny_img :: image where
  "tiny_img = \<lparr>xsize = 2, ysize = 2,
     rows = [[(1, 2, 3), (4, 5, 6)], [(7, 8, 9), (10, 11, 12)]]\<rparr>"





section \<open>Evaluating the float model on numerals\<close>

lemma bit_length_0: "bit_length 0 = 0"
  by (simp add: bit_length.simps)

lemma bit_length_1: "bit_length 1 = 1"
  by (simp add: bit_length.simps)

lemma bit_length_Suc_0: "bit_length (Suc 0) = 1"
  by (simp add: bit_length.simps)

lemma bit_length_Bit0: "bit_length (numeral (Num.Bit0 k)) = Suc (bit_length (numeral k))"
  by (subst bit_length.simps) simp

lemma bit_length_Bit1: "bit_length (numeral (Num.Bit1 k)) = Suc (bit_length (numeral k))"
  by (subst bit_length.simps) simp

lemmas bit_length_numeral =
  bit_length_0 bit_length_1 bit_length_Suc_0 bit_length_Bit0 bit_length_Bit1

lemma floor_rat_numeral: "\<lfloor>numeral a / numeral b :: rat\<rfloor> = numeral a div numeral b"
  using floor_divide_of_int_eq [of "numeral a" "numeral b", where ?'a = rat] by simp

lemma ceiling_rat_numeral:
  "\<lceil>numeral a / numeral b :: rat\<rceil> = - (- numeral a div numeral b)"
  using ceiling_divide_eq_div [of "numeral a" "numeral b", where ?'a = rat] by simp

lemmas float_eval = round_double_def ilog2_def pow2_def rne_def Let_def bit_length_numeral
  floor_rat_numeral ceiling_rat_numeral overflow_def float_of_int_def

text \<open>The two constants, as \<^verbatim>\<open>(4.84).hex()\<close> and \<^verbatim>\<open>(3.47).hex()\<close> print them.\<close>

lemma WIDTH_BLEED_PERCENT_eq: "WIDTH_BLEED_PERCENT = 5449355549118300 / 2 ^ 50"
  unfolding WIDTH_BLEED_PERCENT_def by (simp add: float_eval)

lemma HEIGHT_BLEED_PERCENT_eq: "HEIGHT_BLEED_PERCENT = 7813745353487811 / 2 ^ 51"
  unfolding HEIGHT_BLEED_PERCENT_def by (simp add: float_eval)

lemma bleed_750: "bleed_per_side 750 WIDTH_BLEED_PERCENT = Inr 36"
  unfolding bleed_per_side_def WIDTH_BLEED_PERCENT_eq by (simp add: float_eval)

lemma bleed_1050: "bleed_per_side 1050 HEIGHT_BLEED_PERCENT = Inr 36"
  unfolding bleed_per_side_def HEIGHT_BLEED_PERCENT_eq by (simp add: float_eval)

lemma bleed_100: "bleed_per_side 100 WIDTH_BLEED_PERCENT = Inr 4"
  unfolding bleed_per_side_def WIDTH_BLEED_PERCENT_eq by (simp add: float_eval)

lemma bleed_140: "bleed_per_side 140 HEIGHT_BLEED_PERCENT = Inr 4"
  unfolding bleed_per_side_def HEIGHT_BLEED_PERCENT_eq by (simp add: float_eval)



section \<open>Powers of two, bit lengths and binary exponents\<close>

lemma pow2_powi: "pow2 e = 2 powi e"
  by (simp add: pow2_def power_int_def power_one_over inverse_eq_divide)

lemma pow2_pos [simp]: "0 < pow2 e"
  by (simp add: pow2_def)

lemma pow2_nonneg [simp]: "0 \<le> pow2 e"
  by (simp add: pow2_def)

lemma pow2_numeral [simp]: "pow2 (numeral k) = 2 ^ numeral k"
  by (simp add: pow2_def)

lemma pow2_0 [simp]: "pow2 0 = 1"
  by (simp add: pow2_def)

lemma pow2_1 [simp]: "pow2 1 = 2"
  by (simp add: pow2_def)

lemma pow2_nonzero [simp]: "pow2 e \<noteq> 0"
  by (simp add: pow2_def)

lemma pow2_add: "pow2 (a + b) = pow2 a * pow2 b"
  by (simp add: pow2_powi power_int_add)

lemma pow2_diff: "pow2 (a - b) = pow2 a / pow2 b"
  by (simp add: pow2_powi power_int_diff)

lemma pow2_mono: "a \<le> b \<Longrightarrow> pow2 a \<le> pow2 b"
  by (simp add: pow2_powi power_int_increasing)

lemma pow2_strict_mono: "a < b \<Longrightarrow> pow2 a < pow2 b"
  by (simp add: pow2_powi power_int_strict_increasing)

lemma pow2_less_cancel: "pow2 a < pow2 b \<Longrightarrow> a < b"
  using pow2_mono [of b a] by (cases "a < b") auto

lemma pow2_int: "pow2 (int n) = 2 ^ n"
  by (simp add: pow2_def)

lemma pow2_neg_int: "pow2 (- int n) = 1 / 2 ^ n"
  by (simp add: pow2_powi power_int_minus inverse_eq_divide)

lemma pow2_nonneg_int: "0 \<le> e \<Longrightarrow> pow2 e = of_int (2 ^ nat e)"
  by (simp add: pow2_def)

lemma bit_length_upper: "n < 2 ^ bit_length n"
proof (induction n rule: bit_length.induct)
  case (1 n)
  show ?case
  proof (cases "n = 0")
    case True
    then show ?thesis by (simp add: bit_length.simps)
  next
    case False
    then have "n div 2 < 2 ^ bit_length (n div 2)" by (rule 1)
    then have "n < 2 * 2 ^ bit_length (n div 2)" by arith
    then show ?thesis using False by (subst bit_length.simps) simp
  qed
qed

lemma bit_length_lower: "0 < n \<Longrightarrow> 2 ^ (bit_length n - 1) \<le> n"
proof (induction n rule: bit_length.induct)
  case (1 n)
  show ?case
  proof (cases "n div 2 = 0")
    case True
    then have "bit_length (n div 2) = 0" by (simp add: bit_length.simps)
    then show ?thesis using 1(2) by (subst bit_length.simps) simp
  next
    case False
    then have ih: "2 ^ (bit_length (n div 2) - 1) \<le> n div 2" using 1 by simp
    have pos: "0 < bit_length (n div 2)" using False by (subst bit_length.simps) simp
    have "bit_length n = Suc (bit_length (n div 2))" using 1(2) by (subst bit_length.simps) simp
    then have "(2::nat) ^ (bit_length n - 1) = 2 * 2 ^ (bit_length (n div 2) - 1)"
      using pos by (cases "bit_length (n div 2)") simp_all
    then show ?thesis using ih by arith
  qed
qed

lemma bit_length_pos: "0 < n \<Longrightarrow> 0 < bit_length n"
  by (subst bit_length.simps) simp

lemma ilog2_lower: assumes "0 < x" shows "pow2 (ilog2 x) \<le> x"
proof (cases "1 \<le> x")
  case True
  define n where "n = nat \<lfloor>x\<rfloor>"
  have n: "0 < n" "of_nat n \<le> x" using True by (simp_all add: n_def)
  have "(2::nat) ^ (bit_length n - 1) \<le> n" using n(1) by (rule bit_length_lower)
  from of_nat_mono [OF this, where ?'a = rat]
  have "(2::rat) ^ (bit_length n - 1) \<le> of_nat n" by simp
  then have "(2::rat) ^ (bit_length n - 1) \<le> x" using n(2) by linarith
  moreover have "ilog2 x = int (bit_length n - 1)"
    using True bit_length_pos [OF n(1)] by (simp add: ilog2_def n_def)
  ultimately show ?thesis by (simp add: pow2_int)
next
  case False
  define m where "m = \<lceil>1 / x\<rceil>"
  define n where "n = nat (m - 1)"
  define b where "b = bit_length n"
  have "1 < 1 / x" using False assms by simp
  then have m: "2 \<le> m" unfolding m_def by (simp add: le_ceiling_iff)
  have "n < 2 ^ b" unfolding b_def by (rule bit_length_upper)
  then have "m - 1 < 2 ^ b" using m by (simp add: n_def nat_less_iff)
  then have "m \<le> 2 ^ b" by simp
  then have "(of_int m :: rat) \<le> of_int (2 ^ b)" by (subst of_int_le_iff)
  then have "(of_int m :: rat) \<le> 2 ^ b" by simp
  moreover have "1 / x \<le> of_int m" unfolding m_def by simp
  ultimately have "1 / x \<le> 2 ^ b" by linarith
  then have "1 / 2 ^ b \<le> x" using assms by (simp add: field_simps)
  moreover have "ilog2 x = - int b" using False by (simp add: ilog2_def b_def n_def m_def)
  ultimately show ?thesis by (simp add: pow2_neg_int)
qed

lemma ilog2_upper: assumes "0 < x" shows "x < pow2 (ilog2 x + 1)"
proof (cases "1 \<le> x")
  case True
  define n where "n = nat \<lfloor>x\<rfloor>"
  have n: "0 < n" "x < of_nat n + 1" using True by (simp_all add: n_def) linarith
  have "n + 1 \<le> 2 ^ bit_length n" using bit_length_upper [of n] by simp
  from of_nat_mono [OF this, where ?'a = rat]
  have "of_nat n + 1 \<le> (2::rat) ^ bit_length n" by simp
  then have "x < 2 ^ bit_length n" using n(2) by linarith
  moreover have "ilog2 x + 1 = int (bit_length n)"
    using True by (simp add: ilog2_def n_def)
  ultimately show ?thesis by (simp add: pow2_int)
next
  case False
  define m where "m = \<lceil>1 / x\<rceil>"
  define n where "n = nat (m - 1)"
  define b where "b = bit_length n"
  have "1 < 1 / x" using False assms by simp
  then have m: "2 \<le> m" unfolding m_def by (simp add: le_ceiling_iff)
  then have n: "0 < n" "int n = m - 1" by (simp_all add: n_def)
  have b: "0 < b" unfolding b_def using n(1) by (rule bit_length_pos)
  have "2 ^ (b - 1) \<le> n" unfolding b_def using n(1) by (rule bit_length_lower)
  from of_nat_mono [OF this, where ?'a = rat]
  have "(2::rat) ^ (b - 1) \<le> of_nat n" by simp
  moreover have "(of_nat n :: rat) = of_int m - 1"
  proof -
    have "(of_int (int n) :: rat) = of_int (m - 1)" by (simp only: n(2))
    then show ?thesis by simp
  qed
  moreover have "of_int m - 1 < 1 / x" unfolding m_def by linarith
  ultimately have "2 ^ (b - 1) < 1 / x" by linarith
  then have "x < 1 / 2 ^ (b - 1)" using assms by (simp add: field_simps)
  moreover have "ilog2 x + 1 = - int (b - 1)"
    using False b by (simp add: ilog2_def b_def n_def m_def)
  ultimately show ?thesis by (simp add: pow2_neg_int)
qed

lemma ilog2_unique:
  assumes "pow2 k \<le> x" "x < pow2 (k + 1)" shows "ilog2 x = k"
proof -
  have x: "0 < x" using assms(1) pow2_pos [of k] by linarith
  have "pow2 (ilog2 x) < pow2 (k + 1)" using ilog2_lower [OF x] assms(2) by linarith
  then have "ilog2 x < k + 1" by (rule pow2_less_cancel)
  moreover have "pow2 k < pow2 (ilog2 x + 1)" using ilog2_upper [OF x] assms(1) by linarith
  then have "k < ilog2 x + 1" by (rule pow2_less_cancel)
  ultimately show ?thesis by simp
qed

lemma ilog2_mono: assumes "0 < x" "x \<le> y" shows "ilog2 x \<le> ilog2 y"
proof -
  have y: "0 < y" using assms by simp
  have "pow2 (ilog2 x) < pow2 (ilog2 y + 1)"
    using ilog2_lower [OF assms(1)] ilog2_upper [OF y] assms(2) by linarith
  then have "ilog2 x < ilog2 y + 1" by (rule pow2_less_cancel)
  then show ?thesis by simp
qed



section \<open>Rounding to the nearest double\<close>

lemma rne_of_int [simp]: "rne (of_int n) = n"
  by (simp add: rne_def)

lemma rne_lower: "x - 1 / 2 \<le> of_int (rne x)"
  unfolding rne_def Let_def by (auto; linarith)

lemma rne_upper: "of_int (rne x) \<le> x + 1 / 2"
  unfolding rne_def Let_def by (auto; linarith)

lemma rne_floor_le: "\<lfloor>x\<rfloor> \<le> rne x"
  by (simp add: rne_def Let_def)

lemma rne_le_floor: "rne x \<le> \<lfloor>x\<rfloor> + 1"
  by (simp add: rne_def Let_def)

lemma rne_mono: assumes "x \<le> y" shows "rne x \<le> rne y"
proof (cases "\<lfloor>x\<rfloor> = \<lfloor>y\<rfloor>")
  case True
  have "x - of_int \<lfloor>x\<rfloor> \<le> y - of_int \<lfloor>y\<rfloor>" using assms True by simp
  then show ?thesis unfolding rne_def Let_def using True by auto
next
  case False
  then have "\<lfloor>x\<rfloor> < \<lfloor>y\<rfloor>" using floor_mono [OF assms] by simp
  then have "rne x \<le> \<lfloor>y\<rfloor>" using rne_le_floor [of x] by simp
  then show ?thesis using rne_floor_le [of y] by simp
qed

lemma rne_ge_int: "of_int n \<le> x \<Longrightarrow> n \<le> rne x"
  using rne_mono [of "of_int n" x] by simp

lemma rne_le_int: "x \<le> of_int n \<Longrightarrow> rne x \<le> n"
  using rne_mono [of x "of_int n"] by simp

lemma rne_near:
  assumes "of_int n - 1 / 2 < x" "x < of_int n + 1 / 2" shows "rne x = n"
proof -
  have "(of_int (rne x) :: rat) < of_int n + 1" using rne_upper [of x] assms by linarith
  then have "(of_int (rne x) :: rat) < of_int (n + 1)" by simp
  then have "rne x < n + 1" by (subst (asm) of_int_less_iff)
  moreover have "(of_int n :: rat) - 1 < of_int (rne x)" using rne_lower [of x] assms by linarith
  then have "(of_int (n - 1) :: rat) < of_int (rne x)" by simp
  then have "n - 1 < rne x" by (subst (asm) of_int_less_iff)
  ultimately show ?thesis by simp
qed

lemma round_double_expo:
  "x \<noteq> 0 \<Longrightarrow> round_double x = of_int (rne (x / pow2 (expo x))) * pow2 (expo x)"
  by (simp add: round_double_def expo_def Let_def)

lemma round_double_0 [simp]: "round_double 0 = 0"
  by (simp add: round_double_def)

lemma round_double_nonneg: "0 \<le> x \<Longrightarrow> 0 \<le> round_double x"
proof (cases "x = 0")
  case False
  assume "0 \<le> x"
  then have "(of_int 0 :: rat) \<le> x / pow2 (expo x)" by (simp add: divide_nonneg_pos)
  then have "0 \<le> rne (x / pow2 (expo x))" by (rule rne_ge_int)
  then show ?thesis using False by (simp add: round_double_expo)
qed simp

lemma expo_mono: "0 < x \<Longrightarrow> x \<le> y \<Longrightarrow> expo x \<le> expo y"
  using ilog2_mono [of x y] by (simp add: expo_def)

lemma expo_ge: "- 1074 \<le> expo x"
  by (simp add: expo_def)

text \<open>The scaled value lies below \<open>2 ^ 53\<close>, and from \<open>2 ^ 52\<close> on in the normal range.\<close>

lemma scaled_upper: assumes "0 < x" shows "x / pow2 (expo x) < 2 ^ 53"
proof -
  have "ilog2 x + 1 \<le> expo x + 53" using assms by (simp add: expo_def)
  then have "pow2 (ilog2 x + 1) \<le> pow2 (expo x + 53)" by (rule pow2_mono)
  then have "x < pow2 (expo x + 53)" using ilog2_upper [OF assms] by linarith
  also have "\<dots> = pow2 (expo x) * 2 ^ 53" by (simp add: pow2_add)
  finally show ?thesis by (simp add: field_simps)
qed

lemma scaled_lower:
  assumes "0 < x" "- 1074 < expo x" shows "2 ^ 52 \<le> x / pow2 (expo x)"
proof -
  have "expo x = ilog2 x - 52" using assms by (simp add: expo_def max_def split: if_splits)
  then have "pow2 (expo x) * 2 ^ 52 = pow2 (ilog2 x)"
    using pow2_add [of "expo x" 52] by simp
  then have "pow2 (expo x) * 2 ^ 52 \<le> x" using ilog2_lower [OF assms(1)] by simp
  then show ?thesis by (simp add: field_simps)
qed

lemma round_double_mono:
  assumes "0 \<le> x" "x \<le> y" shows "round_double x \<le> round_double y"
proof (cases "x = 0")
  case True
  then show ?thesis using round_double_nonneg [of y] assms by simp
next
  case False
  then have x: "0 < x" and y: "0 < y" using assms by simp_all
  then have nz: "x \<noteq> 0" "y \<noteq> 0" by simp_all
  have le: "expo x \<le> expo y" using x assms(2) by (rule expo_mono)
  show ?thesis
  proof (cases "expo x = expo y")
    case True
    have "x / pow2 (expo y) \<le> y / pow2 (expo y)" using assms(2) by (intro divide_right_mono) simp_all
    then have "rne (x / pow2 (expo y)) \<le> rne (y / pow2 (expo y))" by (rule rne_mono)
    then have "(of_int (rne (x / pow2 (expo y))) :: rat) \<le> of_int (rne (y / pow2 (expo y)))"
      by (subst of_int_le_iff)
    then show ?thesis using True nz by (simp add: round_double_expo)
  next
    case False
    then have lt: "expo x + 1 \<le> expo y" using le by simp
    then have "- 1074 < expo y" using expo_ge [of x] by simp
    then have "(of_int (2 ^ 52) :: rat) \<le> y / pow2 (expo y)" using scaled_lower [OF y] by simp
    then have "2 ^ 52 \<le> rne (y / pow2 (expo y))" by (rule rne_ge_int)
    then have "(of_int (2 ^ 52) :: rat) \<le> of_int (rne (y / pow2 (expo y)))"
      by (subst of_int_le_iff)
    then have "2 ^ 52 * pow2 (expo y) \<le> round_double y"
      using nz by (simp add: round_double_expo)
    moreover have "x / pow2 (expo x) \<le> of_int (2 ^ 53)" using scaled_upper [OF x] by simp
    then have "rne (x / pow2 (expo x)) \<le> 2 ^ 53" by (rule rne_le_int)
    then have "(of_int (rne (x / pow2 (expo x))) :: rat) \<le> of_int (2 ^ 53)"
      by (subst of_int_le_iff)
    then have "round_double x \<le> 2 ^ 53 * pow2 (expo x)"
      using nz by (simp add: round_double_expo)
    moreover have "2 ^ 53 * pow2 (expo x) = 2 ^ 52 * pow2 (expo x + 1)"
      by (simp add: pow2_add)
    moreover have "pow2 (expo x + 1) \<le> pow2 (expo y)" using lt by (rule pow2_mono)
    then have "2 ^ 52 * pow2 (expo x + 1) \<le> 2 ^ 52 * pow2 (expo y)" by simp
    ultimately show ?thesis by linarith
  qed
qed

text \<open>A number with at most 53 significant bits above the subnormal spacing is a double.\<close>

lemma round_double_exact:
  assumes "0 \<le> m" "m < 2 ^ 53" "- 1074 \<le> e"
  shows "round_double (of_int m * pow2 e) = of_int m * pow2 e"
proof (cases "m = 0")
  case True
  then show ?thesis by simp
next
  case False
  define x where "x = of_int m * pow2 e"
  have m: "0 < m" using False assms by simp
  then have x: "0 < x" by (simp add: x_def)
  have "(of_int m :: rat) < of_int (2 ^ 53)" using assms(2) by (subst of_int_less_iff)
  then have "x < 2 ^ 53 * pow2 e" by (simp add: x_def)
  also have "\<dots> = pow2 (e + 53)" by (simp add: pow2_add)
  finally have "pow2 (ilog2 x) < pow2 (e + 53)" using ilog2_lower [OF x] by linarith
  then have "ilog2 x < e + 53" by (rule pow2_less_cancel)
  then have E: "expo x \<le> e" using assms(3) x by (simp add: expo_def)
  define k where "k = nat (e - expo x)"
  define p where "p = pow2 (expo x)"
  have p: "p \<noteq> 0" by (simp add: p_def)
  have "pow2 e = pow2 (int k) * pow2 (expo x)"
    using E pow2_add [of "int k" "expo x"] by (simp add: k_def)
  then have pe: "pow2 e = 2 ^ k * p" by (simp add: pow2_int p_def)
  then have "x / p = of_int (m * 2 ^ k)" using p by (simp add: x_def)
  then have "rne (x / p) = m * 2 ^ k" by (simp only: rne_of_int)
  then have "round_double x = of_int (m * 2 ^ k) * p"
    using x by (simp add: round_double_expo p_def)
  also have "\<dots> = x" by (simp add: x_def pe)
  finally show ?thesis by (simp add: x_def)
qed

lemma round_double_of_int:
  assumes "0 \<le> m" "m < 2 ^ 53" shows "round_double (of_int m) = of_int m"
  using round_double_exact [OF assms, of 0] by simp



lemma pow2_nonpos: "e \<le> 0 \<Longrightarrow> pow2 e = 1 / 2 ^ nat (- e)"
  by (cases "e = 0") (simp_all add: pow2_def)

text \<open>
  Rounding to a double that lies less than half a unit in the last place away: \<open>y\<close> is
  an integer below \<open>2 ^ 53\<close> and the unit of \<open>x\<close> is \<open>pow2 (expo x) \<le> 1\<close>.
\<close>

lemma round_double_near:
  assumes x: "1 \<le> x" and y: "x \<le> of_int y" "y < 2 ^ 53"
    and near: "(of_int y - x) * 2 ^ 54 < x"
  shows "round_double x = of_int y"
proof -
  have x0: "0 < x" using x by simp
  have "pow2 (ilog2 x) \<le> of_int y" using ilog2_lower [OF x0] y(1) by linarith
  moreover have "(of_int y :: rat) < of_int (2 ^ 53)" using y(2) by (subst of_int_less_iff)
  ultimately have "pow2 (ilog2 x) < pow2 53" by simp
  then have "ilog2 x < 53" by (rule pow2_less_cancel)
  moreover have "pow2 0 < pow2 (ilog2 x + 1)" using ilog2_upper [OF x0] x by simp
  then have "0 < ilog2 x + 1" by (rule pow2_less_cancel)
  ultimately have E: "expo x = ilog2 x - 52" "expo x \<le> 0" using x0 by (simp_all add: expo_def)
  define k where "k = nat (- expo x)"
  define p where "p = pow2 (expo x)"
  have p: "p = 1 / 2 ^ k" unfolding p_def k_def using E(2) by (rule pow2_nonpos)
  have "x < pow2 (ilog2 x + 1)" by (rule ilog2_upper [OF x0])
  also have "ilog2 x + 1 = expo x + 53" using E(1) by simp
  also have "pow2 (expo x + 53) = p * 2 ^ 53" by (simp add: pow2_add p_def)
  finally have "x < 2 ^ 53 / 2 ^ k" by (simp add: p)
  then have xk: "x * 2 ^ k < 2 ^ 53" by (simp add: pos_less_divide_eq)
  define d where "d = (of_int y - x) * 2 ^ k"
  have "(of_int y - x) * 2 ^ 54 * 2 ^ k < x * 2 ^ k" using near by simp
  then have "d * 2 ^ 54 < x * 2 ^ k" by (simp add: d_def mult_ac)
  then have "d * 2 ^ 54 < 2 ^ 53" using xk by linarith
  then have d: "d < 1 / 2" by simp
  have d0: "0 \<le> d" using y(1) by (simp add: d_def)
  have sc: "x / p = of_int (y * 2 ^ k) - d" by (simp add: p d_def algebra_simps)
  have "of_int (y * 2 ^ k) - 1 / 2 < x / p" using d by (simp add: sc)
  moreover have "x / p < of_int (y * 2 ^ k) + 1 / 2" using d0 by (simp add: sc)
  ultimately have "rne (x / p) = y * 2 ^ k" by (rule rne_near)
  then have "round_double x = of_int (y * 2 ^ k) * p"
    using x0 by (simp add: round_double_expo p_def)
  also have "\<dots> = of_int y" by (simp add: p)
  finally show ?thesis .
qed



section \<open>The bleed of one side, exactly\<close>

lemma overflow_Finite: "- (2 ^ 1024) < r \<Longrightarrow> r < 2 ^ 1024 \<Longrightarrow> overflow r = Finite r"
  by (simp add: overflow_def)

lemma float_of_int_exact:
  assumes "0 \<le> n" "n < 2 ^ 53" shows "float_of_int n = Inr (Finite (of_int n))"
proof -
  have "(of_int n :: rat) < of_int (2 ^ 53)" using assms(2) by (subst of_int_less_iff)
  then have "(of_int n :: rat) < 2 ^ 1024" by simp
  moreover have "- (2 ^ 1024) < (of_int n :: rat)" using assms(1) by simp
  ultimately show ?thesis
    by (simp add: float_of_int_def round_double_of_int [OF assms] overflow_Finite)
qed

text \<open>
  The quotient by 100 and the truncation, given the rounded product \<open>p\<close> between \<open>100 k\<close>
  and \<open>100 (k + 1) - 1 / 128\<close>.
\<close>

lemma quotient_bracket:
  assumes k: "0 \<le> k" "k < 2 ^ 38"
    and p: "of_int (100 * k) \<le> p" "p \<le> of_int (100 * (k + 1)) - 1 / 128"
  shows "int_of_float (float_div (overflow p) 100) = Inr k"
proof -
  define q where "q = round_double (p / 100)"
  have kr: "(of_int k :: rat) < 2 ^ 38"
  proof -
    have "(of_int k :: rat) < of_int (2 ^ 38)" using k(2) by (subst of_int_less_iff)
    then show ?thesis by simp
  qed
  have k0: "(0::rat) \<le> of_int k" using k(1) by simp
  have fin: "overflow p = Finite p"
    using p kr k0 by (intro overflow_Finite) simp_all
  have "round_double (of_int k) \<le> q" unfolding q_def
    using p(1) k0 by (intro round_double_mono) simp_all
  then have lo: "of_int k \<le> q" using k by (simp add: round_double_of_int)
  define u where "u = 16384 * (k + 1) - 1"
  have u: "0 \<le> u" "u < 2 ^ 53" using k by (simp_all add: u_def)
  have "0 \<le> p / 100" using p(1) k0 by simp
  moreover have "p / 100 \<le> of_int u * pow2 (- 14)"
    using p(2) by (simp add: u_def pow2_def)
  ultimately have "q \<le> round_double (of_int u * pow2 (- 14))"
    unfolding q_def by (rule round_double_mono)
  then have "q \<le> of_int u * pow2 (- 14)"
    using round_double_exact [OF u, of "- 14"] by simp
  then have hi: "q < of_int k + 1" by (simp add: u_def pow2_def)
  have "\<lfloor>q\<rfloor> = k" using lo hi by (simp add: floor_unique)
  moreover have "0 \<le> q" using lo k0 by linarith
  moreover have "overflow q = Finite q"
    using lo hi kr k0 by (intro overflow_Finite) simp_all
  ultimately show ?thesis by (simp add: fin q_def [symmetric])
qed

lemma product_bracket:
  assumes k: "0 \<le> k" "k < 2 ^ 38"
    and x: "of_int (100 * k) \<le> x" "x \<le> of_int (100 * (k + 1)) - 1 / 128"
  shows "of_int (100 * k) \<le> round_double x \<and> round_double x \<le> of_int (100 * (k + 1)) - 1 / 128"
proof
  have m: "0 \<le> 100 * k" "100 * k < 2 ^ 53" using k by simp_all
  have "round_double (of_int (100 * k)) \<le> round_double x"
    using x(1) m(1) by (intro round_double_mono) simp_all
  then show "of_int (100 * k) \<le> round_double x" by (simp only: round_double_of_int [OF m])
  define u where "u = 12800 * (k + 1) - 1"
  have u: "0 \<le> u" "u < 2 ^ 53" using k by (simp_all add: u_def)
  have ue: "of_int u * pow2 (- 7) = of_int (100 * (k + 1)) - 1 / 128"
    by (simp add: u_def pow2_def)
  have "(0::rat) \<le> of_int (100 * k)" using m(1) by simp
  then have "0 \<le> x" using x(1) by linarith
  then have "round_double x \<le> round_double (of_int u * pow2 (- 7))"
    using x(2) by (intro round_double_mono) (simp_all add: ue)
  then show "round_double x \<le> of_int (100 * (k + 1)) - 1 / 128"
    using round_double_exact [OF u, of "- 7"] by (simp add: ue)
qed

lemma bleed_per_side_bracket:
  assumes n: "0 \<le> n" "n < 2 ^ 53" and k: "0 \<le> k" "k < 2 ^ 38"
    and p: "of_int (100 * k) \<le> round_double (of_int n * c)"
           "round_double (of_int n * c) \<le> of_int (100 * (k + 1)) - 1 / 128"
  shows "bleed_per_side n c = Inr k"
  using quotient_bracket [OF k p] by (simp add: bleed_per_side_def float_of_int_exact [OF n])



lemma WIDTH_num: "WIDTH_BLEED_PERCENT = 5449355549118300 / 1125899906842624"
  by (simp add: WIDTH_BLEED_PERCENT_eq)

lemma HEIGHT_num: "HEIGHT_BLEED_PERCENT = 7813745353487811 / 2251799813685248"
  by (simp add: HEIGHT_BLEED_PERCENT_eq)

lemma div_bounds:
  fixes a d :: int
  assumes "0 < d" "k = a div d"
  shows "d * k \<le> a" "a \<le> d * k + (d - 1)"
proof -
  have "a = d * k + a mod d" unfolding assms by simp
  moreover have "0 \<le> a mod d" "a mod d < d" using assms(1) by simp_all
  ultimately show "d * k \<le> a" "a \<le> d * k + (d - 1)" by linarith+
qed

lemma w_low:
  fixes r s :: rat
  assumes "0 \<le> r" "r < 1099511627776" "2500 * s + 1 \<le> 121 * r"
  shows "100 * s \<le> r * (5449355549118300 / 1125899906842624)"
  using assms by linarith

lemma w_up:
  fixes r s :: rat
  assumes "0 \<le> r" "121 * r \<le> 2500 * s + 2499"
  shows "r * (5449355549118300 / 1125899906842624) \<le> 100 * s + 100 - 1 / 128"
  using assms by linarith

lemma w_near:
  fixes r s :: rat
  assumes "1 \<le> r" "121 * r = 2500 * s"
  shows "1 \<le> r * (5449355549118300 / 1125899906842624)"
    "r * (5449355549118300 / 1125899906842624) \<le> 100 * s"
    "(100 * s - r * (5449355549118300 / 1125899906842624)) * 2 ^ 54
       < r * (5449355549118300 / 1125899906842624)"
proof -
  show "1 \<le> r * (5449355549118300 / 1125899906842624)" using assms by linarith
  show "r * (5449355549118300 / 1125899906842624) \<le> 100 * s" using assms by linarith
  have "100 * s - r * (5449355549118300 / 1125899906842624) = r / 7036874417766400"
    using assms(2) by linarith
  then show "(100 * s - r * (5449355549118300 / 1125899906842624)) * 2 ^ 54
       < r * (5449355549118300 / 1125899906842624)"
    using assms(1) by simp
qed

lemma h_low:
  fixes r s :: rat
  assumes "0 \<le> r" "10000 * s \<le> 347 * r"
  shows "100 * s \<le> r * (7813745353487811 / 2251799813685248)"
  using assms by linarith

lemma h_up:
  fixes r s :: rat
  assumes "0 \<le> r" "r < 1099511627776" "347 * r \<le> 10000 * s + 9999"
  shows "r * (7813745353487811 / 2251799813685248) \<le> 100 * s + 100 - 1 / 128"
  using assms by linarith

lemma rat_le: "a \<le> b \<Longrightarrow> (of_int a :: rat) \<le> of_int b"
  by simp

lemma rat_less: "a < b \<Longrightarrow> (of_int a :: rat) < of_int b"
  by simp

lemma bleed_width_exact:
  assumes n: "0 \<le> n" "n < 2 ^ 40"
  shows "bleed_per_side n WIDTH_BLEED_PERCENT = Inr (121 * n div 2500)"
proof -
  define k where "k = 121 * n div 2500"
  define r :: rat where "r = of_int n"
  define s :: rat where "s = of_int k"
  define x where "x = r * (5449355549118300 / 1125899906842624)"
  have n': "n < 1099511627776" using n(2) by simp
  then have n53: "n < 2 ^ 53" by simp
  have ik: "2500 * k \<le> 121 * n" "121 * n \<le> 2500 * k + 2499"
    using div_bounds [of 2500 k "121 * n"] by (simp_all add: k_def)
  have "0 \<le> k" "k < 274877906944" using ik n(1) n' by linarith+
  then have k: "0 \<le> k" "k < 2 ^ 38" by simp_all
  have r: "0 \<le> r" "r < 1099511627776"
    using rat_le [OF n(1)] rat_less [OF n'] by (simp_all add: r_def)
  have rs: "2500 * s \<le> 121 * r" "121 * r \<le> 2500 * s + 2499"
    using rat_le [OF ik(1)] rat_le [OF ik(2)] by (simp_all add: r_def s_def)
  have hundred: "of_int (100 * k) = 100 * s" "of_int (100 * (k + 1)) = 100 * s + 100"
    by (simp_all add: s_def)
  have "100 * s \<le> round_double x \<and> round_double x \<le> 100 * s + 100 - 1 / 128"
  proof (cases "121 * n = 2500 * k")
    case False
    then have "2500 * k + 1 \<le> 121 * n" using ik(1) by simp
    from rat_le [OF this] have "2500 * s + 1 \<le> 121 * r" by (simp add: r_def s_def)
    then have "100 * s \<le> x" unfolding x_def using r by (intro w_low)
    moreover have "x \<le> 100 * s + 100 - 1 / 128" unfolding x_def using r rs by (intro w_up)
    ultimately show ?thesis using product_bracket [OF k, of x] by (simp only: hundred)
  next
    case True
    then have "(of_int (121 * n) :: rat) = of_int (2500 * k)" by simp
    then have eq: "121 * r = 2500 * s" by (simp add: r_def s_def)
    show ?thesis
    proof (cases "n = 0")
      case True
      then have "x = 0" "s = 0" using eq by (simp_all add: x_def r_def)
      then show ?thesis by simp
    next
      case False
      then have "1 \<le> n" using n(1) by simp
      from rat_le [OF this] have r1: "1 \<le> r" by (simp add: r_def)
      have "round_double x = of_int (100 * k)"
      proof (rule round_double_near)
        show "1 \<le> x" unfolding x_def using r1 eq by (rule w_near)
        show "x \<le> of_int (100 * k)" unfolding x_def hundred using r1 eq by (rule w_near)
        show "100 * k < 2 ^ 53" using k by simp
        show "(of_int (100 * k) - x) * 2 ^ 54 < x"
          unfolding x_def hundred using r1 eq by (rule w_near)
      qed
      then have "round_double x = 100 * s" by (simp only: hundred)
      then show ?thesis by simp
    qed
  qed
  moreover have "of_int n * WIDTH_BLEED_PERCENT = x" by (simp only: x_def r_def WIDTH_num)
  ultimately have "of_int (100 * k) \<le> round_double (of_int n * WIDTH_BLEED_PERCENT)"
    "round_double (of_int n * WIDTH_BLEED_PERCENT) \<le> of_int (100 * (k + 1)) - 1 / 128"
    by (simp_all only: hundred)
  then have "bleed_per_side n WIDTH_BLEED_PERCENT = Inr k"
    by (rule bleed_per_side_bracket [OF n(1) n53 k])
  then show ?thesis by (simp only: k_def)
qed

lemma bleed_height_exact:
  assumes n: "0 \<le> n" "n < 2 ^ 40"
  shows "bleed_per_side n HEIGHT_BLEED_PERCENT = Inr (347 * n div 10000)"
proof -
  define k where "k = 347 * n div 10000"
  define r :: rat where "r = of_int n"
  define s :: rat where "s = of_int k"
  define x where "x = r * (7813745353487811 / 2251799813685248)"
  have n': "n < 1099511627776" using n(2) by simp
  then have n53: "n < 2 ^ 53" by simp
  have ik: "10000 * k \<le> 347 * n" "347 * n \<le> 10000 * k + 9999"
    using div_bounds [of 10000 k "347 * n"] by (simp_all add: k_def)
  have "0 \<le> k" "k < 274877906944" using ik n(1) n' by linarith+
  then have k: "0 \<le> k" "k < 2 ^ 38" by simp_all
  have r: "0 \<le> r" "r < 1099511627776"
    using rat_le [OF n(1)] rat_less [OF n'] by (simp_all add: r_def)
  have rs: "10000 * s \<le> 347 * r" "347 * r \<le> 10000 * s + 9999"
    using rat_le [OF ik(1)] rat_le [OF ik(2)] by (simp_all add: r_def s_def)
  have hundred: "of_int (100 * k) = 100 * s" "of_int (100 * (k + 1)) = 100 * s + 100"
    by (simp_all add: s_def)
  have "100 * s \<le> x" unfolding x_def using r rs by (intro h_low)
  moreover have "x \<le> 100 * s + 100 - 1 / 128" unfolding x_def using r rs by (intro h_up)
  ultimately have "100 * s \<le> round_double x \<and> round_double x \<le> 100 * s + 100 - 1 / 128"
    using product_bracket [OF k, of x] by (simp only: hundred)
  moreover have "of_int n * HEIGHT_BLEED_PERCENT = x" by (simp only: x_def r_def HEIGHT_num)
  ultimately have "of_int (100 * k) \<le> round_double (of_int n * HEIGHT_BLEED_PERCENT)"
    "round_double (of_int n * HEIGHT_BLEED_PERCENT) \<le> of_int (100 * (k + 1)) - 1 / 128"
    by (simp_all only: hundred)
  then have "bleed_per_side n HEIGHT_BLEED_PERCENT = Inr k"
    by (rule bleed_per_side_bracket [OF n(1) n53 k])
  then show ?thesis by (simp only: k_def)
qed



section \<open>The bleed of one side is monotone\<close>

lemma overflow_nonneg:
  "0 \<le> r \<Longrightarrow> overflow r = (if 2 ^ 1024 \<le> r then PosInf else Finite r)"
  by (simp add: overflow_def)

text \<open>The computation of \<open>bleed_per_side\<close> on a non-negative operand, step by step.\<close>

lemma bleed_per_side_unfold:
  assumes "0 \<le> n" "0 \<le> c"
  shows "bleed_per_side n c =
    (if 2 ^ 1024 \<le> round_double (of_int n) then Inl OverflowError
     else if 2 ^ 1024 \<le> round_double (round_double (of_int n) * c) then Inl OverflowError
     else if 2 ^ 1024 \<le> round_double (round_double (round_double (of_int n) * c) / 100)
       then Inl OverflowError
     else Inr \<lfloor>round_double (round_double (round_double (of_int n) * c) / 100)\<rfloor>)"
proof -
  define g where "g = round_double (of_int n)"
  define p where "p = round_double (g * c)"
  define q where "q = round_double (p / 100)"
  have g: "0 \<le> g" unfolding g_def using assms(1) by (intro round_double_nonneg) simp
  then have p: "0 \<le> p" unfolding p_def using assms(2) by (intro round_double_nonneg) simp
  then have q: "0 \<le> q" unfolding q_def by (intro round_double_nonneg) simp
  show ?thesis
    unfolding bleed_per_side_def float_of_int_def g_def [symmetric]
    by (simp add: overflow_nonneg g p q p_def [symmetric] q_def [symmetric])
qed

lemma bleed_per_side_nonneg:
  assumes "0 \<le> n" "0 \<le> c" "bleed_per_side n c = Inr k" shows "0 \<le> k"
proof -
  have "0 \<le> round_double (round_double (round_double (of_int n) * c) / 100)"
    using assms(1,2) by (intro round_double_nonneg divide_nonneg_nonneg mult_nonneg_nonneg) simp_all
  then show ?thesis
    using assms(3) unfolding bleed_per_side_unfold [OF assms(1,2)]
    by (auto split: if_splits)
qed

lemma bleed_per_side_mono:
  assumes n: "0 \<le> n" "n \<le> n'" and c: "0 \<le> c" and r: "bleed_per_side n' c = Inr k'"
  shows "\<exists>k. bleed_per_side n c = Inr k \<and> k \<le> k'"
proof -
  define g where "g = round_double (of_int n)"
  define p where "p = round_double (g * c)"
  define q where "q = round_double (p / 100)"
  define g' where "g' = round_double (of_int n')"
  define p' where "p' = round_double (g' * c)"
  define q' where "q' = round_double (p' / 100)"
  have n': "0 \<le> n'" using n by simp
  have g0: "0 \<le> g" unfolding g_def using n(1) by (intro round_double_nonneg) simp
  have p0: "0 \<le> p" unfolding p_def using g0 c by (intro round_double_nonneg) simp
  have g: "g \<le> g'" unfolding g_def g'_def using n by (intro round_double_mono) simp_all
  have p: "p \<le> p'" unfolding p_def p'_def
    using g g0 c by (intro round_double_mono mult_right_mono mult_nonneg_nonneg)
  have q: "q \<le> q'" unfolding q_def q'_def
    using p p0 by (intro round_double_mono divide_right_mono divide_nonneg_nonneg) simp_all
  have fl: "\<lfloor>q\<rfloor> \<le> \<lfloor>q'\<rfloor>" using q by (rule floor_mono)
  have r': "\<not> 2 ^ 1024 \<le> g'" "\<not> 2 ^ 1024 \<le> p'" "\<not> 2 ^ 1024 \<le> q'" "k' = \<lfloor>q'\<rfloor>"
    using r unfolding bleed_per_side_unfold [OF n' c] g'_def [symmetric] p'_def [symmetric]
      q'_def [symmetric]
    by (auto split: if_splits)
  then have "\<not> 2 ^ 1024 \<le> g" "\<not> 2 ^ 1024 \<le> p" "\<not> 2 ^ 1024 \<le> q"
    using g p q by linarith+
  then have "bleed_per_side n c = Inr \<lfloor>q\<rfloor>"
    unfolding bleed_per_side_unfold [OF n(1) c] g_def [symmetric] p_def [symmetric]
      q_def [symmetric]
    by simp
  then show ?thesis using fl r'(4) by simp
qed



section \<open>The image operations, pixel by pixel\<close>

lemma getpixel_px: "x < xsize im \<Longrightarrow> y < ysize im \<Longrightarrow> getpixel im (x, y) = Inr (px im x y)"
  by (simp add: getpixel_def px_def)

lemma xsize_Image_new [simp]: "xsize (Image_new (w, h) c) = w"
  and ysize_Image_new [simp]: "ysize (Image_new (w, h) c) = h"
  by (simp_all add: Image_new_def)

lemma sized_Image_new [simp]: "sized (Image_new (w, h) c)"
  by (simp add: sized_def Image_new_def)

lemma xsize_crop [simp]: "xsize (crop im (l, u, r, b)) = r - l"
  and ysize_crop [simp]: "ysize (crop im (l, u, r, b)) = b - u"
  by (simp_all add: crop_def)

lemma px_crop:
  "x < r - l \<Longrightarrow> y < b - u \<Longrightarrow>
   px (crop im (l, u, r, b)) x y =
     (if l + x < xsize im \<and> u + y < ysize im then px im (l + x) (u + y) else black)"
  by (simp add: crop_def px_def)

lemma xsize_paste [simp]: "xsize (paste dst src pos) = xsize dst"
  and ysize_paste [simp]: "ysize (paste dst src pos) = ysize dst"
  by (simp_all add: paste_def split: prod.splits)

lemma sized_paste [simp]: "sized (paste dst src pos)"
  by (auto simp: sized_def paste_def split: prod.splits)

lemma px_paste:
  "x < xsize dst \<Longrightarrow> y < ysize dst \<Longrightarrow>
   px (paste dst src (x0, y0)) x y =
     (if x0 \<le> x \<and> x < x0 + xsize src \<and> y0 \<le> y \<and> y < y0 + ysize src
      then px src (x - x0) (y - y0) else px dst x y)"
  by (simp add: paste_def px_def)

lemma xsize_fold_paste [simp]:
  "xsize (fold (\<lambda>i canvas. paste canvas e (f i)) is c) = xsize c"
  by (induction "is" arbitrary: c) simp_all

lemma ysize_fold_paste [simp]:
  "ysize (fold (\<lambda>i canvas. paste canvas e (f i)) is c) = ysize c"
  by (induction "is" arbitrary: c) simp_all

lemma sized_fold_paste:
  "sized c \<Longrightarrow> sized (fold (\<lambda>i canvas. paste canvas e (f i)) is c)"
  by (induction "is" arbitrary: c) simp_all

lemma px_fold_paste_rows:
  "ysize e = 1 \<Longrightarrow> x < xsize c \<Longrightarrow> y < ysize c \<Longrightarrow>
   px (fold (\<lambda>i canvas. paste canvas e (l, i)) ys c) x y =
     (if y \<in> set ys \<and> l \<le> x \<and> x < l + xsize e then px e (x - l) 0 else px c x y)"
proof (induction ys arbitrary: c)
  case Nil
  then show ?case by simp
next
  case (Cons i ys)
  have "px (fold (\<lambda>i canvas. paste canvas e (l, i)) ys (paste c e (l, i))) x y =
     (if y \<in> set ys \<and> l \<le> x \<and> x < l + xsize e then px e (x - l) 0
      else px (paste c e (l, i)) x y)"
    using Cons.prems by (intro Cons.IH) simp_all
  then show ?case using Cons.prems by (auto simp: px_paste)
qed

lemma px_fold_paste_cols:
  "xsize e = 1 \<Longrightarrow> x < xsize c \<Longrightarrow> y < ysize c \<Longrightarrow>
   px (fold (\<lambda>i canvas. paste canvas e (i, 0)) xs c) x y =
     (if x \<in> set xs \<and> y < ysize e then px e 0 y else px c x y)"
proof (induction xs arbitrary: c)
  case Nil
  then show ?case by simp
next
  case (Cons i xs)
  have "px (fold (\<lambda>i canvas. paste canvas e (i, 0)) xs (paste c e (i, 0))) x y =
     (if x \<in> set xs \<and> y < ysize e then px e 0 y else px (paste c e (i, 0)) x y)"
    using Cons.prems by (intro Cons.IH) simp_all
  then show ?case using Cons.prems by (auto simp: px_paste)
qed

lemma xsize_fill_top [simp]: "xsize (fill_top img t l c) = xsize c"
  and ysize_fill_top [simp]: "ysize (fill_top img t l c) = ysize c"
  by (simp_all add: fill_top_def Let_def)

lemma xsize_fill_bottom [simp]: "xsize (fill_bottom img t b l nh c) = xsize c"
  and ysize_fill_bottom [simp]: "ysize (fill_bottom img t b l nh c) = ysize c"
  by (simp_all add: fill_bottom_def Let_def)

lemma xsize_fill_left [simp]: "xsize (fill_left l nh c) = xsize c"
  and ysize_fill_left [simp]: "ysize (fill_left l nh c) = ysize c"
  by (simp_all add: fill_left_def Let_def)

lemma xsize_fill_right [simp]: "xsize (fill_right img l r nw nh c) = xsize c"
  and ysize_fill_right [simp]: "ysize (fill_right img l r nw nh c) = ysize c"
  by (simp_all add: fill_right_def Let_def)

lemma sized_fill_top: "sized c \<Longrightarrow> sized (fill_top img t l c)"
  by (simp add: fill_top_def Let_def sized_fold_paste)

lemma sized_fill_bottom: "sized c \<Longrightarrow> sized (fill_bottom img t b l nh c)"
  by (simp add: fill_bottom_def Let_def sized_fold_paste)

lemma sized_fill_left: "sized c \<Longrightarrow> sized (fill_left l nh c)"
  by (simp add: fill_left_def Let_def sized_fold_paste)

lemma sized_fill_right: "sized c \<Longrightarrow> sized (fill_right img l r nw nh c)"
  by (simp add: fill_right_def Let_def sized_fold_paste)

lemma px_fill_top:
  "0 < ysize img \<Longrightarrow> x < xsize c \<Longrightarrow> y < ysize c \<Longrightarrow>
   px (fill_top img t l c) x y =
     (if y < t \<and> l \<le> x \<and> x < l + xsize img then px img (x - l) 0 else px c x y)"
  by (auto simp: fill_top_def Let_def px_fold_paste_rows px_crop)

lemma px_fill_bottom:
  "0 < ysize img \<Longrightarrow> x < xsize c \<Longrightarrow> y < ysize c \<Longrightarrow>
   px (fill_bottom img t b l nh c) x y =
     (if 0 < b \<and> t + ysize img \<le> y \<and> y < nh \<and> l \<le> x \<and> x < l + xsize img
      then px img (x - l) (ysize img - 1) else px c x y)"
  by (auto simp: fill_bottom_def Let_def px_fold_paste_rows px_crop)

lemma px_fill_left:
  "l < xsize c \<Longrightarrow> nh = ysize c \<Longrightarrow> x < xsize c \<Longrightarrow> y < ysize c \<Longrightarrow>
   px (fill_left l nh c) x y = (if x < l then px c l y else px c x y)"
  by (auto simp: fill_left_def Let_def px_fold_paste_cols px_crop)

lemma px_fill_right:
  "0 < xsize img \<Longrightarrow> l + xsize img \<le> xsize c \<Longrightarrow> nw = xsize c \<Longrightarrow> nh = ysize c \<Longrightarrow>
   x < xsize c \<Longrightarrow> y < ysize c \<Longrightarrow>
   px (fill_right img l r nw nh c) x y =
     (if 0 < r \<and> l + xsize img \<le> x then px c (l + xsize img - 1) y else px c x y)"
  by (auto simp: fill_right_def Let_def px_fold_paste_cols px_crop)



section \<open>The canvas after the fills\<close>

lemma px_Image_new: "x < w \<Longrightarrow> y < h \<Longrightarrow> px (Image_new (w, h) c) x y = c"
  by (simp add: px_def Image_new_def)

lemma xsize_filled [simp]: "xsize (filled color img t b l r) = xsize img + l + r"
  and ysize_filled [simp]: "ysize (filled color img t b l r) = ysize img + t + b"
  by (simp_all add: filled_def Let_def)

lemma sized_filled: "sized (filled color img t b l r)"
  by (simp add: filled_def Let_def sized_fill_right sized_fill_left sized_fill_bottom sized_fill_top)

lemma px_filled:
  assumes img: "0 < xsize img" "0 < ysize img"
    and x: "x < xsize img + l + r" and y: "y < ysize img + t + b"
  shows "px (filled color img t b l r) x y =
           px img (min (x - l) (xsize img - 1)) (min (y - t) (ysize img - 1))"
proof -
  define nw nh where "nw = xsize img + l + r" and "nh = ysize img + t + b"
  define c1 where "c1 = paste (Image_new (nw, nh) color) img (l, t)"
  define c2 where "c2 = fill_top img t l c1"
  define c3 where "c3 = fill_bottom img t b l nh c2"
  define c4 where "c4 = fill_left l nh c3"
  define c5 where "c5 = fill_right img l r nw nh c4"
  have sz: "xsize c1 = nw" "ysize c1 = nh" "xsize c2 = nw" "ysize c2 = nh"
    "xsize c3 = nw" "ysize c3 = nh" "xsize c4 = nw" "ysize c4 = nh"
    by (simp_all add: c1_def c2_def c3_def c4_def)
  have p1: "px c1 u v = (if l \<le> u \<and> u < l + xsize img \<and> t \<le> v \<and> v < t + ysize img
              then px img (u - l) (v - t) else color)" if "u < nw" "v < nh" for u v
    unfolding c1_def using that by (simp add: px_paste px_Image_new)
  have p2: "px c2 u v = (if v < t \<and> l \<le> u \<and> u < l + xsize img then px img (u - l) 0
              else px c1 u v)" if "u < nw" "v < nh" for u v
    unfolding c2_def using that img by (simp add: px_fill_top sz)
  have p3: "px c3 u v = (if 0 < b \<and> t + ysize img \<le> v \<and> v < nh \<and> l \<le> u \<and> u < l + xsize img
              then px img (u - l) (ysize img - 1) else px c2 u v)" if "u < nw" "v < nh" for u v
    unfolding c3_def using that img by (simp add: px_fill_bottom sz)
  have p4: "px c4 u v = (if u < l then px c3 l v else px c3 u v)" if "u < nw" "v < nh" for u v
    unfolding c4_def using that img by (simp add: px_fill_left sz nw_def)
  have p5: "px c5 u v = (if 0 < r \<and> l + xsize img \<le> u then px c4 (l + xsize img - 1) v
              else px c4 u v)" if "u < nw" "v < nh" for u v
    unfolding c5_def using that img by (simp add: px_fill_right sz nw_def)
  have xy: "x < nw" "y < nh" using x y by (simp_all add: nw_def nh_def)
  have l: "l < nw" "l + xsize img - 1 < nw" using img by (simp_all add: nw_def)
  have col: "px c3 u y = px img (u - l) (min (y - t) (ysize img - 1))"
    if "l \<le> u" "u < l + xsize img" for u
  proof -
    have "u < nw" using that by (simp add: nw_def)
    then show ?thesis using that xy img
      by (auto simp: p3 p2 p1 nh_def min_def)
  qed
  have "filled color img t b l r = c5"
    by (simp add: filled_def Let_def c5_def c4_def c3_def c2_def c1_def nw_def nh_def)
  moreover have "px c5 x y = px img (min (x - l) (xsize img - 1)) (min (y - t) (ysize img - 1))"
  proof (cases "x < l")
    case True
    then have "px c5 x y = px c3 l y" using xy l by (simp add: p5 p4)
    also have "\<dots> = px img (l - l) (min (y - t) (ysize img - 1))"
      using img by (intro col) simp_all
    finally show ?thesis using True by simp
  next
    case False
    show ?thesis
    proof (cases "x < l + xsize img")
      case True
      then have "px c5 x y = px c3 x y" using xy \<open>\<not> x < l\<close> by (simp add: p5 p4)
      also have "\<dots> = px img (x - l) (min (y - t) (ysize img - 1))"
        using True \<open>\<not> x < l\<close> by (intro col) simp_all
      finally show ?thesis using True by (simp add: min_def)
    next
      case False
      then have r: "0 < r" using xy by (simp add: nw_def)
      have "\<not> l + xsize img - 1 < l" using img by arith
      then have "px c4 (l + xsize img - 1) y = px c3 (l + xsize img - 1) y"
        using xy l by (simp only: p4 if_False)
      moreover have "px c5 x y = px c4 (l + xsize img - 1) y"
        using xy False r by (simp add: p5)
      ultimately have "px c5 x y = px c3 (l + xsize img - 1) y" by simp
      also have "\<dots> = px img (l + xsize img - 1 - l) (min (y - t) (ysize img - 1))"
        using img by (intro col) simp_all
      finally show ?thesis using False by (simp add: min_def)
    qed
  qed
  ultimately show ?thesis by simp
qed



section \<open>From the margins to the canvas\<close>

lemma WIDTH_nonneg: "0 \<le> WIDTH_BLEED_PERCENT"
  by (simp add: WIDTH_num)

lemma HEIGHT_nonneg: "0 \<le> HEIGHT_BLEED_PERCENT"
  by (simp add: HEIGHT_num)

lemma calculate_bleed_pixels_Inr:
  "calculate_bleed_pixels w h = Inr (t, b, l, r) \<longleftrightarrow>
     bleed_per_side w WIDTH_BLEED_PERCENT = Inr l \<and> r = l \<and>
     bleed_per_side h HEIGHT_BLEED_PERCENT = Inr t \<and> b = t"
  by (auto simp: calculate_bleed_pixels_def split: sum.splits)

lemma margins_nonneg:
  assumes "0 \<le> w" "0 \<le> h" "calculate_bleed_pixels w h = Inr (t, b, l, r)"
  shows "0 \<le> t" "0 \<le> b" "0 \<le> l" "0 \<le> r"
  using assms bleed_per_side_nonneg [OF assms(1) WIDTH_nonneg, of l]
    bleed_per_side_nonneg [OF assms(2) HEIGHT_nonneg, of t]
  by (simp_all add: calculate_bleed_pixels_Inr)

lemma bleed_canvas_filled:
  assumes "calculate_bleed_pixels (int (xsize img)) (int (ysize img)) = Inr (t, b, l, r)"
  shows "bleed_canvas color img = Inr (filled color img (nat t) (nat b) (nat l) (nat r))"
proof -
  have nn: "0 \<le> t" "0 \<le> b" "0 \<le> l" "0 \<le> r"
    using margins_nonneg [OF _ _ assms] by simp_all
  then have "nat (int (xsize img) + l + r) = xsize img + nat l + nat r"
    "nat (int (ysize img) + t + b) = ysize img + nat t + nat b"
    by (simp_all add: nat_add_distrib)
  then show ?thesis using nn assms by (simp add: bleed_canvas_def filled_def Let_def)
qed

lemma image_eqI:
  fixes a b :: image
  assumes "sized a" "sized b" "xsize a = xsize b" "ysize a = ysize b"
    and "\<And>x y. x < xsize a \<Longrightarrow> y < ysize a \<Longrightarrow> px a x y = px b x y"
  shows "a = b"
proof -
  have "rows a = rows b"
  proof (rule nth_equalityI)
    show "length (rows a) = length (rows b)" using assms(1,2,4) by (simp add: sized_def)
    fix y assume y: "y < length (rows a)"
    then have ya: "y < ysize a" "y < length (rows b)" using assms(1,2,4) by (simp_all add: sized_def)
    have la: "length (rows a ! y) = xsize a" using assms(1) y by (simp add: sized_def)
    have lb: "length (rows b ! y) = xsize a" using assms(2,3) ya by (simp add: sized_def)
    show "rows a ! y = rows b ! y"
    proof (rule nth_equalityI)
      show "length (rows a ! y) = length (rows b ! y)" using la lb by simp
      fix x assume "x < length (rows a ! y)"
      then have "x < xsize a" using la by simp
      then show "rows a ! y ! x = rows b ! y ! x" using assms(5) [OF _ ya(1)] by (simp add: px_def)
    qed
  qed
  then show ?thesis using assms(3,4) by simp
qed

lemma filled_color: 
  assumes "0 < xsize img" "0 < ysize img"
  shows "filled color img t b l r = filled black img t b l r"
  by (rule image_eqI) (simp_all add: sized_filled px_filled assms)

lemma filled_zero:
  assumes "decoded img" shows "filled color img 0 0 0 0 = img"
proof (rule image_eqI)
  fix x y assume "x < xsize (filled color img 0 0 0 0)" "y < ysize (filled color img 0 0 0 0)"
  then have xy: "x < xsize img" "y < ysize img" by simp_all
  then have "min (x - 0) (xsize img - 1) = x" "min (y - 0) (ysize img - 1) = y" by auto
  moreover have "px (filled color img 0 0 0 0) x y =
      px img (min (x - 0) (xsize img - 1)) (min (y - 0) (ysize img - 1))"
    using assms xy by (intro px_filled) (simp_all add: decoded_def)
  ultimately show "px (filled color img 0 0 0 0) x y = px img x y" by simp
qed (use assms in \<open>simp_all add: sized_filled decoded_def\<close>)



section \<open>The claims about the geometry\<close>

lemma floor_percent:
  "\<lfloor>of_int n * (484 / 100) / 100 :: rat\<rfloor> = 121 * n div 2500"
  "\<lfloor>of_int n * (347 / 100) / 100 :: rat\<rfloor> = 347 * n div 10000"
proof -
  have "of_int n * (484 / 100) / 100 = (of_int (121 * n) :: rat) / of_int 2500" by simp
  then show "\<lfloor>of_int n * (484 / 100) / 100 :: rat\<rfloor> = 121 * n div 2500"
    by (simp only: floor_divide_of_int_eq)
  have "of_int n * (347 / 100) / 100 = (of_int (347 * n) :: rat) / of_int 10000" by simp
  then show "\<lfloor>of_int n * (347 / 100) / 100 :: rat\<rfloor> = 347 * n div 10000"
    by (simp only: floor_divide_of_int_eq)
qed

lemma calculate_exact:
  assumes "0 \<le> w" "w < 2 ^ 40" "0 \<le> h" "h < 2 ^ 40"
  shows "calculate_bleed_pixels w h =
    Inr (347 * h div 10000, 347 * h div 10000, 121 * w div 2500, 121 * w div 2500)"
  by (simp add: calculate_bleed_pixels_def bleed_width_exact [OF assms(1,2)]
      bleed_height_exact [OF assms(3,4)])

text \<open>
  C4, amended. For all integers \<open>width\<close> and \<open>height\<close> from 1 to \<open>2 ^ 40 - 1\<close>,
  \<^verbatim>\<open>calculate_bleed_pixels(width, height)\<close> returns
  \<open>(vertical, vertical, horizontal, horizontal)\<close> where \<open>horizontal\<close> is the floor of the
  exact rational \<open>width * 4.84 / 100\<close> and \<open>vertical\<close> the floor of \<open>height * 3.47 / 100\<close>:
  below \<open>2 ^ 40\<close> the roundings of the double arithmetic never reach the next integer.
\<close>

theorem C4_margin_formula:
  assumes "0 < width" "width < 2 ^ 40" "0 < height" "height < 2 ^ 40"
  shows "calculate_bleed_pixels width height =
    Inr (\<lfloor>of_int height * (347 / 100) / 100 :: rat\<rfloor>,
         \<lfloor>of_int height * (347 / 100) / 100 :: rat\<rfloor>,
         \<lfloor>of_int width * (484 / 100) / 100 :: rat\<rfloor>,
         \<lfloor>of_int width * (484 / 100) / 100 :: rat\<rfloor>)"
  using assms by (simp only: floor_percent calculate_exact)

theorem C4_margin_formula_witness:
  "calculate_bleed_pixels 1500 2100 = Inr (72, 72, 72, 72)"
  using C4_margin_formula [of 1500 2100] by (simp add: floor_rat_numeral)

text \<open>
  Beyond that bound the claim fails: at width 140737488356219 the doubles give one more
  than the exact floor, and at width \<open>2 ^ 1024\<close> the conversion to a float raises.
\<close>

lemma big_width: "bleed_per_side 140737488356219 WIDTH_BLEED_PERCENT = Inr 6811694436441"
  unfolding bleed_per_side_def WIDTH_BLEED_PERCENT_eq by (simp add: float_eval)

lemma one_height: "bleed_per_side 1 HEIGHT_BLEED_PERCENT = Inr 0"
  unfolding bleed_per_side_def HEIGHT_BLEED_PERCENT_eq by (simp add: float_eval)

lemma huge_width: "bleed_per_side (2 ^ 1024) WIDTH_BLEED_PERCENT = Inl OverflowError"
  unfolding bleed_per_side_def by (simp add: float_eval)

theorem C4_margin_formula_counterexample:
  "calculate_bleed_pixels 140737488356219 1 = Inr (0, 0, 6811694436441, 6811694436441) \<and>
   \<lfloor>of_int 140737488356219 * (484 / 100) / 100 :: rat\<rfloor> = 6811694436440 \<and>
   calculate_bleed_pixels (2 ^ 1024) 1 = Inl OverflowError"
proof -
  have "calculate_bleed_pixels (2 ^ 1024) 1 = Inl OverflowError"
    by (simp only: calculate_bleed_pixels_def huge_width sum.case)
  then show ?thesis
    by (simp add: calculate_bleed_pixels_def big_width one_height floor_rat_numeral)
qed


text \<open>
  C6. \<^verbatim>\<open>calculate_bleed_pixels(750, 1050)\<close> returns \<open>(36, 36, 36, 36)\<close> and
  \<^verbatim>\<open>calculate_bleed_pixels(100, 140)\<close> returns \<open>(4, 4, 4, 4)\<close>, computed in double precision
  as the program does.
\<close>

theorem C6_margin_examples:
  "calculate_bleed_pixels 750 1050 = Inr (36, 36, 36, 36) \<and>
   calculate_bleed_pixels 100 140 = Inr (4, 4, 4, 4)"
  by (simp add: calculate_bleed_pixels_def bleed_750 bleed_1050 bleed_100 bleed_140)




section \<open>The claims about the canvas\<close>

lemma same_pixelI:
  "getpixel a p = Inr c \<Longrightarrow> getpixel b q = Inr c \<Longrightarrow> same_pixel a p b q"
  by (simp add: same_pixel_def)

lemma same_pixel_getpixel:
  "same_pixel a p b q \<Longrightarrow> getpixel b q = Inr c \<Longrightarrow> getpixel a p = Inr c"
  by (auto simp: same_pixel_def split: sum.splits)

lemma same_pixel_via:
  "same_pixel a p b q \<Longrightarrow> same_pixel c r b q \<Longrightarrow> same_pixel a p c r"
  by (auto simp: same_pixel_def split: sum.splits)

text \<open>What \<open>extend_image\<close> returns, whatever the colour of the fresh canvas.\<close>

lemma extend_image_filled:
  assumes "calculate_bleed_pixels (int (xsize img)) (int (ysize img)) = Inr (t, b, l, r)"
  shows "extend_image img = Inr (filled black img (nat t) (nat b) (nat l) (nat r))"
  by (simp add: extend_image_def bleed_canvas_filled [OF assms])

lemma bleed_canvas_any_color:
  assumes "decoded img"
    and "calculate_bleed_pixels (int (xsize img)) (int (ysize img)) = Inr (t, b, l, r)"
  shows "bleed_canvas color img = Inr (filled black img (nat t) (nat b) (nat l) (nat r))"
proof -
  have "0 < xsize img" "0 < ysize img" using assms(1) by (simp_all add: decoded_def)
  then have "filled color img (nat t) (nat b) (nat l) (nat r) =
      filled black img (nat t) (nat b) (nat l) (nat r)"
    by (rule filled_color)
  then show ?thesis by (simp add: bleed_canvas_filled [OF assms(2)])
qed

text \<open>Every pixel of the canvas is the source pixel at the nearest position of the source.\<close>

lemma same_pixel_filled:
  assumes "decoded img" "x < l + xsize img + r" "y < t + ysize img + b"
    and "min (x - l) (xsize img - 1) = cx" "min (y - t) (ysize img - 1) = cy"
  shows "same_pixel (filled color img t b l r) (x, y) img (cx, cy)"
proof (rule same_pixelI)
  have pos: "0 < xsize img" "0 < ysize img" using assms(1) by (simp_all add: decoded_def)
  have "px (filled color img t b l r) x y =
      px img (min (x - l) (xsize img - 1)) (min (y - t) (ysize img - 1))"
    using pos assms(2,3) by (intro px_filled) simp_all
  then show "getpixel (filled color img t b l r) (x, y) = Inr (px img cx cy)"
    using assms(2-5) by (simp add: getpixel_px)
  have "cx < xsize img" "cy < ysize img" using pos assms(4,5) by auto
  then show "getpixel img (cx, cy) = Inr (px img cx cy)" by (rule getpixel_px)
qed

text \<open>
  C5. For a decoded image of size \<open>(w, h)\<close> whose margins, computed by
  \<^verbatim>\<open>calculate_bleed_pixels\<close>, are \<open>(top, bottom, left, right)\<close>, the edge extension returns
  a canvas of width \<open>w + left + right\<close> and height \<open>h + top + bottom\<close>.
\<close>

theorem C5_dimension_identity:
  assumes "decoded img"
    and "calculate_bleed_pixels (int (xsize img)) (int (ysize img)) = Inr (top', bottom, left, right)"
  shows "\<exists>out. extend_image img = Inr out \<and> sized out \<and>
    int (xsize out) = int (xsize img) + left + right \<and>
    int (ysize out) = int (ysize img) + top' + bottom"
proof -
  let ?out = "filled black img (nat top') (nat bottom) (nat left) (nat right)"
  have nn: "0 \<le> top'" "0 \<le> bottom" "0 \<le> left" "0 \<le> right"
    using margins_nonneg [OF _ _ assms(2)] by simp_all
  have 1: "extend_image img = Inr ?out" by (rule extend_image_filled [OF assms(2)])
  have 2: "sized ?out" by (rule sized_filled)
  have 3: "int (xsize ?out) = int (xsize img) + left + right" using nn by simp
  have 4: "int (ysize ?out) = int (ysize img) + top' + bottom" using nn by simp
  show ?thesis using 1 2 3 4 by (intro exI [of _ ?out] conjI)
qed



lemma decoded_example_img: "decoded example_img"
  by (simp add: decoded_def sized_def example_img_def)

lemma margins_example_img:
  "calculate_bleed_pixels (int (xsize example_img)) (int (ysize example_img)) = Inr (1, 1, 1, 1)"
  by (simp add: example_img_def calculate_exact)

lemma getpixel_example_img:
  "x < 21 \<Longrightarrow> y < 29 \<Longrightarrow> getpixel example_img (x, y) = Inr (of_nat x, of_nat y, 7)"
  by (simp add: getpixel_def example_img_def)

lemma size_example_img: "xsize example_img = 21" "ysize example_img = 29"
  by (simp_all add: example_img_def)

theorem C5_dimension_identity_witness:
  "\<exists>out. extend_image example_img = Inr out \<and> xsize out = 23 \<and> ysize out = 31"
proof -
  obtain out where out: "extend_image example_img = Inr out" "sized out"
    "int (xsize out) = int (xsize example_img) + 1 + 1"
    "int (ysize out) = int (ysize example_img) + 1 + 1"
    using C5_dimension_identity [OF decoded_example_img margins_example_img]
    by (elim exE conjE) (rule that)
  have "xsize out = 23" "ysize out = 31" using out(3,4) by (simp_all add: size_example_img)
  then show ?thesis using out(1) by (intro exI [of _ out] conjI)
qed

text \<open>
  C1. In the returned canvas, every pixel of the top strip (rows \<open>0\<close> to \<open>top - 1\<close>, columns
  \<open>left\<close> to \<open>left + w - 1\<close>) is the pixel of the same column in row 0 of the source; every
  pixel of the bottom strip is the pixel of the same column in the last row of the source;
  every pixel of the left strip (columns \<open>0\<close> to \<open>left - 1\<close>, all rows) is the canvas pixel at
  column \<open>left\<close> of its row; every pixel of the right strip is the canvas pixel at column
  \<open>left + w - 1\<close> of its row.
\<close>

theorem C1_edge_replication:
  assumes "decoded img"
    and "calculate_bleed_pixels (int (xsize img)) (int (ysize img)) = Inr (top', bottom, left, right)"
  shows "\<exists>out. extend_image img = Inr out \<and>
    (\<forall>x y. y < nat top' \<and> nat left \<le> x \<and> x < nat left + xsize img \<longrightarrow>
       same_pixel out (x, y) img (x - nat left, 0)) \<and>
    (\<forall>x y. nat top' + ysize img \<le> y \<and> y < nat top' + ysize img + nat bottom \<and>
           nat left \<le> x \<and> x < nat left + xsize img \<longrightarrow>
       same_pixel out (x, y) img (x - nat left, ysize img - 1)) \<and>
    (\<forall>x y. x < nat left \<and> y < nat top' + ysize img + nat bottom \<longrightarrow>
       same_pixel out (x, y) out (nat left, y)) \<and>
    (\<forall>x y. nat left + xsize img \<le> x \<and> x < nat left + xsize img + nat right \<and>
           y < nat top' + ysize img + nat bottom \<longrightarrow>
       same_pixel out (x, y) out (nat left + xsize img - 1, y))"
proof -
  let ?out = "filled black img (nat top') (nat bottom) (nat left) (nat right)"
  have pos: "0 < xsize img" "0 < ysize img" using assms(1) by (simp_all add: decoded_def)
  have 0: "extend_image img = Inr ?out" by (rule extend_image_filled [OF assms(2)])
  have 1: "\<forall>x y. y < nat top' \<and> nat left \<le> x \<and> x < nat left + xsize img \<longrightarrow>
       same_pixel ?out (x, y) img (x - nat left, 0)"
  proof (intro allI impI)
    fix x y assume "y < nat top' \<and> nat left \<le> x \<and> x < nat left + xsize img"
    then show "same_pixel ?out (x, y) img (x - nat left, 0)"
      by (intro same_pixel_filled [OF assms(1)]) auto
  qed
  have 2: "\<forall>x y. nat top' + ysize img \<le> y \<and> y < nat top' + ysize img + nat bottom \<and>
           nat left \<le> x \<and> x < nat left + xsize img \<longrightarrow>
       same_pixel ?out (x, y) img (x - nat left, ysize img - 1)"
  proof (intro allI impI)
    fix x y assume "nat top' + ysize img \<le> y \<and> y < nat top' + ysize img + nat bottom \<and>
           nat left \<le> x \<and> x < nat left + xsize img"
    then show "same_pixel ?out (x, y) img (x - nat left, ysize img - 1)"
      by (intro same_pixel_filled [OF assms(1)]) auto
  qed
  have 3: "\<forall>x y. x < nat left \<and> y < nat top' + ysize img + nat bottom \<longrightarrow>
       same_pixel ?out (x, y) ?out (nat left, y)"
  proof (intro allI impI)
    fix x y assume a: "x < nat left \<and> y < nat top' + ysize img + nat bottom"
    have "same_pixel ?out (x, y) img (0, min (y - nat top') (ysize img - 1))"
      using a by (intro same_pixel_filled [OF assms(1)]) auto
    moreover have "same_pixel ?out (nat left, y) img (0, min (y - nat top') (ysize img - 1))"
      using a pos by (intro same_pixel_filled [OF assms(1)]) auto
    ultimately show "same_pixel ?out (x, y) ?out (nat left, y)" by (rule same_pixel_via)
  qed
  have 4: "\<forall>x y. nat left + xsize img \<le> x \<and> x < nat left + xsize img + nat right \<and>
           y < nat top' + ysize img + nat bottom \<longrightarrow>
       same_pixel ?out (x, y) ?out (nat left + xsize img - 1, y)"
  proof (intro allI impI)
    fix x y assume a: "nat left + xsize img \<le> x \<and> x < nat left + xsize img + nat right \<and>
           y < nat top' + ysize img + nat bottom"
    have "same_pixel ?out (x, y) img (xsize img - 1, min (y - nat top') (ysize img - 1))"
      using a by (intro same_pixel_filled [OF assms(1)]) auto
    moreover have "same_pixel ?out (nat left + xsize img - 1, y) img
        (xsize img - 1, min (y - nat top') (ysize img - 1))"
      using a pos by (intro same_pixel_filled [OF assms(1)]) auto
    ultimately show "same_pixel ?out (x, y) ?out (nat left + xsize img - 1, y)"
      by (rule same_pixel_via)
  qed
  show ?thesis using 0 1 2 3 4 by (intro exI [of _ ?out] conjI)
qed

theorem C1_edge_replication_witness:
  "\<exists>out. extend_image example_img = Inr out \<and>
     getpixel out (5, 0) = Inr (4, 0, 7) \<and> getpixel out (5, 30) = Inr (4, 28, 7) \<and>
     same_pixel out (0, 10) out (1, 10) \<and> same_pixel out (22, 10) out (21, 10)"
proof -
  obtain out where out: "extend_image example_img = Inr out"
    and T: "\<forall>x y. y < nat 1 \<and> nat 1 \<le> x \<and> x < nat 1 + xsize example_img \<longrightarrow>
       same_pixel out (x, y) example_img (x - nat 1, 0)"
    and B: "\<forall>x y. nat 1 + ysize example_img \<le> y \<and> y < nat 1 + ysize example_img + nat 1 \<and>
           nat 1 \<le> x \<and> x < nat 1 + xsize example_img \<longrightarrow>
       same_pixel out (x, y) example_img (x - nat 1, ysize example_img - 1)"
    and L: "\<forall>x y. x < nat 1 \<and> y < nat 1 + ysize example_img + nat 1 \<longrightarrow>
       same_pixel out (x, y) out (nat 1, y)"
    and R: "\<forall>x y. nat 1 + xsize example_img \<le> x \<and> x < nat 1 + xsize example_img + nat 1 \<and>
           y < nat 1 + ysize example_img + nat 1 \<longrightarrow>
       same_pixel out (x, y) out (nat 1 + xsize example_img - 1, y)"
    using C1_edge_replication [OF decoded_example_img margins_example_img]
    by (elim exE conjE) (rule that)
  have t: "same_pixel out (5, 0) example_img (4, 0)"
    using T [rule_format, of 0 5] by (simp add: size_example_img)
  have b: "same_pixel out (5, 30) example_img (4, 28)"
    using B [rule_format, of 30 5] by (simp add: size_example_img)
  have l: "same_pixel out (0, 10) out (1, 10)"
    using L [rule_format, of 0 10] by (simp add: size_example_img)
  have r: "same_pixel out (22, 10) out (21, 10)"
    using R [rule_format, of 22 10] by (simp add: size_example_img)
  have g1: "getpixel out (5, 0) = Inr (4, 0, 7)"
    using same_pixel_getpixel [OF t] by (simp add: getpixel_example_img)
  have g2: "getpixel out (5, 30) = Inr (4, 28, 7)"
    using same_pixel_getpixel [OF b] by (simp add: getpixel_example_img)
  show ?thesis using out g1 g2 l r by (intro exI [of _ out] conjI)
qed



text \<open>
  C2. Each of the four corner rectangles of the returned canvas is filled with one colour,
  the corresponding corner pixel of the source: \<open>(0, 0)\<close>, \<open>(w - 1, 0)\<close>, \<open>(0, h - 1)\<close> and
  \<open>(w - 1, h - 1)\<close>.
\<close>

theorem C2_corner_consistency:
  assumes "decoded img"
    and "calculate_bleed_pixels (int (xsize img)) (int (ysize img)) = Inr (top', bottom, left, right)"
  shows "\<exists>out. extend_image img = Inr out \<and>
    (\<forall>x y. x < nat left \<and> y < nat top' \<longrightarrow> same_pixel out (x, y) img (0, 0)) \<and>
    (\<forall>x y. nat left + xsize img \<le> x \<and> x < nat left + xsize img + nat right \<and> y < nat top' \<longrightarrow>
       same_pixel out (x, y) img (xsize img - 1, 0)) \<and>
    (\<forall>x y. x < nat left \<and> nat top' + ysize img \<le> y \<and> y < nat top' + ysize img + nat bottom \<longrightarrow>
       same_pixel out (x, y) img (0, ysize img - 1)) \<and>
    (\<forall>x y. nat left + xsize img \<le> x \<and> x < nat left + xsize img + nat right \<and>
           nat top' + ysize img \<le> y \<and> y < nat top' + ysize img + nat bottom \<longrightarrow>
       same_pixel out (x, y) img (xsize img - 1, ysize img - 1))"
proof -
  let ?out = "filled black img (nat top') (nat bottom) (nat left) (nat right)"
  have 0: "extend_image img = Inr ?out" by (rule extend_image_filled [OF assms(2)])
  have 1: "\<forall>x y. x < nat left \<and> y < nat top' \<longrightarrow> same_pixel ?out (x, y) img (0, 0)"
  proof (intro allI impI)
    fix x y assume "x < nat left \<and> y < nat top'"
    then show "same_pixel ?out (x, y) img (0, 0)"
      by (intro same_pixel_filled [OF assms(1)]) auto
  qed
  have 2: "\<forall>x y. nat left + xsize img \<le> x \<and> x < nat left + xsize img + nat right \<and>
           y < nat top' \<longrightarrow> same_pixel ?out (x, y) img (xsize img - 1, 0)"
  proof (intro allI impI)
    fix x y
    assume "nat left + xsize img \<le> x \<and> x < nat left + xsize img + nat right \<and> y < nat top'"
    then show "same_pixel ?out (x, y) img (xsize img - 1, 0)"
      by (intro same_pixel_filled [OF assms(1)]) auto
  qed
  have 3: "\<forall>x y. x < nat left \<and> nat top' + ysize img \<le> y \<and>
           y < nat top' + ysize img + nat bottom \<longrightarrow>
       same_pixel ?out (x, y) img (0, ysize img - 1)"
  proof (intro allI impI)
    fix x y
    assume "x < nat left \<and> nat top' + ysize img \<le> y \<and> y < nat top' + ysize img + nat bottom"
    then show "same_pixel ?out (x, y) img (0, ysize img - 1)"
      by (intro same_pixel_filled [OF assms(1)]) auto
  qed
  have 4: "\<forall>x y. nat left + xsize img \<le> x \<and> x < nat left + xsize img + nat right \<and>
           nat top' + ysize img \<le> y \<and> y < nat top' + ysize img + nat bottom \<longrightarrow>
       same_pixel ?out (x, y) img (xsize img - 1, ysize img - 1)"
  proof (intro allI impI)
    fix x y
    assume "nat left + xsize img \<le> x \<and> x < nat left + xsize img + nat right \<and>
           nat top' + ysize img \<le> y \<and> y < nat top' + ysize img + nat bottom"
    then show "same_pixel ?out (x, y) img (xsize img - 1, ysize img - 1)"
      by (intro same_pixel_filled [OF assms(1)]) auto
  qed
  show ?thesis using 0 1 2 3 4 by (intro exI [of _ ?out] conjI)
qed

theorem C2_corner_consistency_witness:
  "\<exists>out. extend_image example_img = Inr out \<and>
     getpixel out (0, 0) = Inr (0, 0, 7) \<and> getpixel out (22, 0) = Inr (20, 0, 7) \<and>
     getpixel out (0, 30) = Inr (0, 28, 7) \<and> getpixel out (22, 30) = Inr (20, 28, 7)"
proof -
  obtain out where out: "extend_image example_img = Inr out"
    and TL: "\<forall>x y. x < nat 1 \<and> y < nat 1 \<longrightarrow> same_pixel out (x, y) example_img (0, 0)"
    and TR: "\<forall>x y. nat 1 + xsize example_img \<le> x \<and> x < nat 1 + xsize example_img + nat 1 \<and>
           y < nat 1 \<longrightarrow> same_pixel out (x, y) example_img (xsize example_img - 1, 0)"
    and BL: "\<forall>x y. x < nat 1 \<and> nat 1 + ysize example_img \<le> y \<and>
           y < nat 1 + ysize example_img + nat 1 \<longrightarrow>
       same_pixel out (x, y) example_img (0, ysize example_img - 1)"
    and BR: "\<forall>x y. nat 1 + xsize example_img \<le> x \<and> x < nat 1 + xsize example_img + nat 1 \<and>
           nat 1 + ysize example_img \<le> y \<and> y < nat 1 + ysize example_img + nat 1 \<longrightarrow>
       same_pixel out (x, y) example_img (xsize example_img - 1, ysize example_img - 1)"
    using C2_corner_consistency [OF decoded_example_img margins_example_img]
    by (elim exE conjE) (rule that)
  have tl: "same_pixel out (0, 0) example_img (0, 0)"
    using TL [rule_format, of 0 0] by simp
  have tr: "same_pixel out (22, 0) example_img (20, 0)"
    using TR [rule_format, of 22 0] by (simp add: size_example_img)
  have bl: "same_pixel out (0, 30) example_img (0, 28)"
    using BL [rule_format, of 0 30] by (simp add: size_example_img)
  have br: "same_pixel out (22, 30) example_img (20, 28)"
    using BR [rule_format, of 22 30] by (simp add: size_example_img)
  have g1: "getpixel out (0, 0) = Inr (0, 0, 7)"
    using same_pixel_getpixel [OF tl] by (simp add: getpixel_example_img)
  have g2: "getpixel out (22, 0) = Inr (20, 0, 7)"
    using same_pixel_getpixel [OF tr] by (simp add: getpixel_example_img)
  have g3: "getpixel out (0, 30) = Inr (0, 28, 7)"
    using same_pixel_getpixel [OF bl] by (simp add: getpixel_example_img)
  have g4: "getpixel out (22, 30) = Inr (20, 28, 7)"
    using same_pixel_getpixel [OF br] by (simp add: getpixel_example_img)
  show ?thesis using out g1 g2 g3 g4 by (intro exI [of _ out] conjI)
qed

text \<open>
  C7. Every pixel of the returned canvas has been written by a paste: the canvas is the
  same whatever colour \<^verbatim>\<open>Image.new\<close> fills the fresh canvas with, and each of its pixels is
  the source pixel at the nearest position of the source (the position itself inside the
  central region, the nearest edge or corner pixel in the margins).
\<close>

theorem C7_no_residual_initialization:
  assumes "decoded img"
    and "calculate_bleed_pixels (int (xsize img)) (int (ysize img)) = Inr (top', bottom, left, right)"
  shows "\<exists>out. extend_image img = Inr out \<and> bleed_canvas color img = Inr out \<and>
    (\<forall>x y. x < nat left + xsize img + nat right \<and> y < nat top' + ysize img + nat bottom \<longrightarrow>
       same_pixel out (x, y) img
         (min (x - nat left) (xsize img - 1), min (y - nat top') (ysize img - 1)))"
proof -
  let ?out = "filled black img (nat top') (nat bottom) (nat left) (nat right)"
  have 0: "extend_image img = Inr ?out" by (rule extend_image_filled [OF assms(2)])
  have 1: "bleed_canvas color img = Inr ?out" by (rule bleed_canvas_any_color [OF assms])
  have 2: "\<forall>x y. x < nat left + xsize img + nat right \<and> y < nat top' + ysize img + nat bottom \<longrightarrow>
       same_pixel ?out (x, y) img
         (min (x - nat left) (xsize img - 1), min (y - nat top') (ysize img - 1))"
  proof (intro allI impI)
    fix x y
    assume "x < nat left + xsize img + nat right \<and> y < nat top' + ysize img + nat bottom"
    then show "same_pixel ?out (x, y) img
         (min (x - nat left) (xsize img - 1), min (y - nat top') (ysize img - 1))"
      by (intro same_pixel_filled [OF assms(1)]) simp_all
  qed
  show ?thesis using 0 1 2 by (intro exI [of _ ?out] conjI)
qed

theorem C7_no_residual_initialization_witness:
  "\<exists>out. extend_image example_img = Inr out \<and> bleed_canvas (9, 9, 9) example_img = Inr out \<and>
     getpixel out (0, 5) = Inr (0, 4, 7) \<and> getpixel out (12, 30) = Inr (11, 28, 7)"
proof -
  obtain out where out: "extend_image example_img = Inr out"
    and col: "bleed_canvas (9, 9, 9) example_img = Inr out"
    and P: "\<forall>x y. x < nat 1 + xsize example_img + nat 1 \<and> y < nat 1 + ysize example_img + nat 1 \<longrightarrow>
       same_pixel out (x, y) example_img
         (min (x - nat 1) (xsize example_img - 1), min (y - nat 1) (ysize example_img - 1))"
    using C7_no_residual_initialization
      [OF decoded_example_img margins_example_img, of "(9, 9, 9)"]
    by (elim exE conjE) (rule that)
  have a: "same_pixel out (0, 5) example_img (0, 4)"
    using P [rule_format, of 0 5] by (simp add: size_example_img)
  have b: "same_pixel out (12, 30) example_img (11, 28)"
    using P [rule_format, of 12 30] by (simp add: size_example_img)
  have g1: "getpixel out (0, 5) = Inr (0, 4, 7)"
    using same_pixel_getpixel [OF a] by (simp add: getpixel_example_img)
  have g2: "getpixel out (12, 30) = Inr (11, 28, 7)"
    using same_pixel_getpixel [OF b] by (simp add: getpixel_example_img)
  show ?thesis using out col g1 g2 by (intro exI [of _ out] conjI)
qed



text \<open>
  C3. The region of the returned canvas at offset \<open>(left, top)\<close> of the size of the source
  equals the source (the RGB image that the program works on), pixel by pixel. The paste
  puts it there, and none of the four fills changes a pixel of that region, on any canvas
  \<open>c\<close> of the extended size.
\<close>

theorem C3_center_preservation:
  assumes "decoded img"
    and "calculate_bleed_pixels (int (xsize img)) (int (ysize img)) = Inr (top', bottom, left, right)"
    and "x < xsize img" "y < ysize img"
    and "xsize c = nat left + xsize img + nat right" "ysize c = nat top' + ysize img + nat bottom"
  shows "\<exists>out. extend_image img = Inr out \<and>
      same_pixel out (nat left + x, nat top' + y) img (x, y) \<and>
      same_pixel (paste c img (nat left, nat top')) (nat left + x, nat top' + y) img (x, y) \<and>
      same_pixel (fill_top img (nat top') (nat left) c) (nat left + x, nat top' + y)
        c (nat left + x, nat top' + y) \<and>
      same_pixel (fill_bottom img (nat top') (nat bottom) (nat left) (ysize c) c)
        (nat left + x, nat top' + y) c (nat left + x, nat top' + y) \<and>
      same_pixel (fill_left (nat left) (ysize c) c) (nat left + x, nat top' + y)
        c (nat left + x, nat top' + y) \<and>
      same_pixel (fill_right img (nat left) (nat right) (xsize c) (ysize c) c)
        (nat left + x, nat top' + y) c (nat left + x, nat top' + y)"
proof -
  let ?out = "filled black img (nat top') (nat bottom) (nat left) (nat right)"
  have out: "extend_image img = Inr ?out" by (rule extend_image_filled [OF assms(2)])
  let ?x = "nat left + x" and ?y = "nat top' + y"
  have pos: "0 < xsize img" "0 < ysize img" using assms(1) by (simp_all add: decoded_def)
  have xy: "?x < xsize c" "?y < ysize c" using assms(3-6) by simp_all
  have c: "getpixel c (?x, ?y) = Inr (px c ?x ?y)" using xy by (rule getpixel_px)
  have 1: "same_pixel ?out (?x, ?y) img (x, y)"
    using assms(3,4) by (intro same_pixel_filled [OF assms(1)]) auto
  have 2: "same_pixel (paste c img (nat left, nat top')) (?x, ?y) img (x, y)"
    using xy assms(3,4) by (intro same_pixelI [of _ _ "px img x y"]) (simp_all add: getpixel_px px_paste)
  have 3: "same_pixel (fill_top img (nat top') (nat left) c) (?x, ?y) c (?x, ?y)"
    using xy pos c by (intro same_pixelI [of _ _ "px c ?x ?y"]) (simp_all add: getpixel_px px_fill_top)
  have 4: "same_pixel (fill_bottom img (nat top') (nat bottom) (nat left) (ysize c) c) (?x, ?y) c (?x, ?y)"
    using xy pos c assms(4)
    by (intro same_pixelI [of _ _ "px c ?x ?y"]) (simp_all add: getpixel_px px_fill_bottom)
  have 5: "same_pixel (fill_left (nat left) (ysize c) c) (?x, ?y) c (?x, ?y)"
    using xy pos c assms(5)
    by (intro same_pixelI [of _ _ "px c ?x ?y"]) (simp_all add: getpixel_px px_fill_left)
  have 6: "same_pixel (fill_right img (nat left) (nat right) (xsize c) (ysize c) c) (?x, ?y) c (?x, ?y)"
    using xy pos c assms(3,5)
    by (intro same_pixelI [of _ _ "px c ?x ?y"]) (simp_all add: getpixel_px px_fill_right)
  show ?thesis using out 1 2 3 4 5 6 by (intro exI [of _ ?out] conjI)
qed



lemma getpixel_Image_new:
  "x < w \<Longrightarrow> y < h \<Longrightarrow> getpixel (Image_new (w, h) c) (x, y) = Inr c"
  by (simp add: getpixel_px px_Image_new)

theorem C3_center_preservation_witness:
  "\<exists>out. extend_image example_img = Inr out \<and>
     getpixel out (3, 4) = Inr (2, 3, 7) \<and>
     getpixel (paste (Image_new (23, 31) black) example_img (1, 1)) (3, 4) = Inr (2, 3, 7) \<and>
     getpixel (fill_top example_img 1 1 (Image_new (23, 31) black)) (3, 4) = Inr black \<and>
     getpixel (fill_bottom example_img 1 1 1 31 (Image_new (23, 31) black)) (3, 4) = Inr black \<and>
     getpixel (fill_left 1 31 (Image_new (23, 31) black)) (3, 4) = Inr black \<and>
     getpixel (fill_right example_img 1 1 23 31 (Image_new (23, 31) black)) (3, 4) = Inr black"
proof -
  let ?c = "Image_new (23, 31) black"
  have "\<exists>out. extend_image example_img = Inr out \<and>
      same_pixel out (nat 1 + 2, nat 1 + 3) example_img (2, 3) \<and>
      same_pixel (paste ?c example_img (nat 1, nat 1)) (nat 1 + 2, nat 1 + 3) example_img (2, 3) \<and>
      same_pixel (fill_top example_img (nat 1) (nat 1) ?c) (nat 1 + 2, nat 1 + 3)
        ?c (nat 1 + 2, nat 1 + 3) \<and>
      same_pixel (fill_bottom example_img (nat 1) (nat 1) (nat 1) (ysize ?c) ?c)
        (nat 1 + 2, nat 1 + 3) ?c (nat 1 + 2, nat 1 + 3) \<and>
      same_pixel (fill_left (nat 1) (ysize ?c) ?c) (nat 1 + 2, nat 1 + 3)
        ?c (nat 1 + 2, nat 1 + 3) \<and>
      same_pixel (fill_right example_img (nat 1) (nat 1) (xsize ?c) (ysize ?c) ?c)
        (nat 1 + 2, nat 1 + 3) ?c (nat 1 + 2, nat 1 + 3)"
    by (rule C3_center_preservation [OF decoded_example_img margins_example_img])
      (simp_all add: size_example_img)
  then obtain out where out: "extend_image example_img = Inr out"
    and 1: "same_pixel out (nat 1 + 2, nat 1 + 3) example_img (2, 3)"
    and 2: "same_pixel (paste ?c example_img (nat 1, nat 1)) (nat 1 + 2, nat 1 + 3)
              example_img (2, 3)"
    and 3: "same_pixel (fill_top example_img (nat 1) (nat 1) ?c) (nat 1 + 2, nat 1 + 3)
              ?c (nat 1 + 2, nat 1 + 3)"
    and 4: "same_pixel (fill_bottom example_img (nat 1) (nat 1) (nat 1) (ysize ?c) ?c)
              (nat 1 + 2, nat 1 + 3) ?c (nat 1 + 2, nat 1 + 3)"
    and 5: "same_pixel (fill_left (nat 1) (ysize ?c) ?c) (nat 1 + 2, nat 1 + 3)
              ?c (nat 1 + 2, nat 1 + 3)"
    and 6: "same_pixel (fill_right example_img (nat 1) (nat 1) (xsize ?c) (ysize ?c) ?c)
              (nat 1 + 2, nat 1 + 3) ?c (nat 1 + 2, nat 1 + 3)"
    by (elim exE conjE) (rule that)
  have e: "nat 1 = (1::nat)" "(1::nat) + 2 = 3" "(1::nat) + 3 = 4"
    "xsize ?c = 23" "ysize ?c = 31"
    by simp_all
  have 1: "same_pixel out (3, 4) example_img (2, 3)" using 1 by (simp only: e)
  have 2: "same_pixel (paste ?c example_img (1, 1)) (3, 4) example_img (2, 3)"
    using 2 by (simp only: e)
  have 3: "same_pixel (fill_top example_img 1 1 ?c) (3, 4) ?c (3, 4)" using 3 by (simp only: e)
  have 4: "same_pixel (fill_bottom example_img 1 1 1 31 ?c) (3, 4) ?c (3, 4)"
    using 4 by (simp only: e)
  have 5: "same_pixel (fill_left 1 31 ?c) (3, 4) ?c (3, 4)" using 5 by (simp only: e)
  have 6: "same_pixel (fill_right example_img 1 1 23 31 ?c) (3, 4) ?c (3, 4)"
    using 6 by (simp only: e)
  have e: "getpixel example_img (2, 3) = Inr (2, 3, 7)" by (simp add: getpixel_example_img)
  have c: "getpixel ?c (3, 4) = Inr black" by (simp add: getpixel_Image_new)
  show ?thesis
    using out same_pixel_getpixel [OF 1 e] same_pixel_getpixel [OF 2 e]
      same_pixel_getpixel [OF 3 c] same_pixel_getpixel [OF 4 c]
      same_pixel_getpixel [OF 5 c] same_pixel_getpixel [OF 6 c]
    by (intro exI [of _ out] conjI)
qed

lemma extend_image_zero_margins:
  assumes "decoded img"
    and "calculate_bleed_pixels (int (xsize img)) (int (ysize img)) = Inr (0, 0, 0, 0)"
  shows "extend_image img = Inr img"
  using bleed_canvas_filled [OF assms(2), of black] filled_zero [OF assms(1), of black]
  by (simp add: extend_image_def)

lemma small_margins_zero:
  assumes "w \<le> 20" "h \<le> 28"
  shows "calculate_bleed_pixels (int w) (int h) = Inr (0, 0, 0, 0)"
proof -
  have "int w < 2 ^ 40" "int h < 2 ^ 40" using assms by simp_all
  then have "calculate_bleed_pixels (int w) (int h) =
      Inr (347 * int h div 10000, 347 * int h div 10000, 121 * int w div 2500, 121 * int w div 2500)"
    by (intro calculate_exact) simp_all
  moreover have "347 * int h div 10000 = 0" "121 * int w div 2500 = 0"
    using assms by simp_all
  ultimately show ?thesis by simp
qed

text \<open>
  C9. For a decoded image whose computed margins are all zero the edge extension returns
  the image itself, size and pixels; the margins are all zero whenever the width is at most
  20 and the height at most 28; and a fill whose margin is zero leaves its canvas as it is.
\<close>

theorem C9_zero_margins_identity:
  assumes "decoded img"
  shows "(calculate_bleed_pixels (int (xsize img)) (int (ysize img)) = Inr (0, 0, 0, 0) \<longrightarrow>
            extend_image img = Inr img) \<and>
         (xsize img \<le> 20 \<and> ysize img \<le> 28 \<longrightarrow>
            calculate_bleed_pixels (int (xsize img)) (int (ysize img)) = Inr (0, 0, 0, 0)) \<and>
         fill_top img 0 l c = c \<and> fill_bottom img t 0 l nh c = c \<and>
         fill_left 0 nh c = c \<and> fill_right img l 0 nw nh c = c"
  using extend_image_zero_margins [OF assms] small_margins_zero
  by (simp add: fill_top_def fill_bottom_def fill_left_def fill_right_def)

lemma decoded_tiny_img: "decoded tiny_img"
  by (simp add: decoded_def sized_def tiny_img_def)

theorem C9_zero_margins_identity_witness:
  "calculate_bleed_pixels 2 2 = Inr (0, 0, 0, 0) \<and> extend_image tiny_img = Inr tiny_img"
  using C9_zero_margins_identity [OF decoded_tiny_img] by (simp add: tiny_img_def)

text \<open>
  C10. \<^verbatim>\<open>calculate_bleed_pixels\<close> is monotone: for positive \<open>w \<le> w'\<close> and \<open>h \<le> h'\<close>, whenever
  the call at \<open>(w', h')\<close> returns, the call at \<open>(w, h)\<close> returns too and each of its components
  is at most the corresponding one. The horizontal margins depend on the width alone (they
  are those of any call with the same width), the vertical ones on the height alone.
\<close>

theorem C10_margins_monotone:
  assumes "0 < w" "w \<le> w'" "0 < h" "h \<le> h'"
    and "calculate_bleed_pixels w' h' = Inr (t', b', l', r')"
    and "calculate_bleed_pixels w h2 = Inr (t2, b2, l2, r2)"
    and "calculate_bleed_pixels w2 h = Inr (t3, b3, l3, r3)"
  shows "\<exists>t b l r. calculate_bleed_pixels w h = Inr (t, b, l, r) \<and>
           t \<le> t' \<and> b \<le> b' \<and> l \<le> l' \<and> r \<le> r' \<and>
           l2 = l \<and> r2 = r \<and> t3 = t \<and> b3 = b"
proof -
  have w: "0 \<le> w" and h: "0 \<le> h" using assms by simp_all
  have big: "bleed_per_side w' WIDTH_BLEED_PERCENT = Inr l'" "r' = l'"
    "bleed_per_side h' HEIGHT_BLEED_PERCENT = Inr t'" "b' = t'"
    using assms(5) by (simp_all add: calculate_bleed_pixels_Inr)
  obtain l where l: "bleed_per_side w WIDTH_BLEED_PERCENT = Inr l" "l \<le> l'"
    using bleed_per_side_mono [OF w assms(2) WIDTH_nonneg big(1)]
    by (elim exE conjE) (rule that)
  obtain t where t: "bleed_per_side h HEIGHT_BLEED_PERCENT = Inr t" "t \<le> t'"
    using bleed_per_side_mono [OF h assms(4) HEIGHT_nonneg big(3)]
    by (elim exE conjE) (rule that)
  have 0: "calculate_bleed_pixels w h = Inr (t, t, l, l)"
    using l(1) t(1) by (simp add: calculate_bleed_pixels_Inr)
  have "l2 = l" "r2 = l" "t3 = t" "b3 = t"
    using assms(6,7) l(1) t(1) by (simp_all add: calculate_bleed_pixels_Inr)
  then have 1: "t \<le> t' \<and> t \<le> b' \<and> l \<le> l' \<and> l \<le> r' \<and>
      l2 = l \<and> r2 = l \<and> t3 = t \<and> b3 = t"
    using l(2) t(2) big(2,4) by simp
  show ?thesis using 0 1 by (intro exI [of _ t] exI [of _ l] conjI) simp_all
qed

theorem C10_margins_monotone_witness:
  "calculate_bleed_pixels 100 140 = Inr (4, 4, 4, 4) \<and>
   calculate_bleed_pixels 750 1050 = Inr (36, 36, 36, 36) \<and>
   calculate_bleed_pixels 100 1050 = Inr (36, 36, 4, 4) \<and>
   calculate_bleed_pixels 750 140 = Inr (4, 4, 36, 36)"
proof -
  have a: "calculate_bleed_pixels 750 1050 = Inr (36, 36, 36, 36)"
    and b: "calculate_bleed_pixels 100 1050 = Inr (36, 36, 4, 4)"
    and c: "calculate_bleed_pixels 750 140 = Inr (4, 4, 36, 36)"
    by (simp_all add: calculate_bleed_pixels_def bleed_750 bleed_1050 bleed_100 bleed_140)
  from C10_margins_monotone [where w = 100 and h = 140, OF _ _ _ _ a b c]
  have "calculate_bleed_pixels 100 140 = Inr (4, 4, 4, 4)" by auto
  then show ?thesis using a b c by simp
qed



section \<open>The batch driver\<close>

lemma io_bind_Inr: "m w = (Inr v, w') \<Longrightarrow> io_bind m f w = f v w'"
  by (simp add: io_bind_def)

lemma io_bind_Inl: "m w = (Inl e, w') \<Longrightarrow> io_bind m f w = (Inl e, w')"
  by (simp add: io_bind_def)




lemma add_bleed_border_saved:
  assumes "image_open env p u = (Inr img, u1)" "extend_image img = Inr ext"
    and "save env ext (output_folder @ [name p]) u1 = (Inr (), u2)"
  shows "add_bleed_border env p output_folder u = (Inr True, u2)"
  using assms
  by (simp add: add_bleed_border_def try_except_def io_bind_def io_return_def)



















end
